theory Spec2Isabelle
  imports Main
begin

section \<open>Exceptions of the composition engine\<close>

text \<open>
  The engine of \<^verbatim>\<open>i3py/core/composition.py\<close> signals failures with Python exceptions.
  Each raise site of the source is one constructor:
  \<^item> \<open>DuplicateIdentifier\<close>: the \<^verbatim>\<open>ValueError\<close> raised by \<^verbatim>\<open>_check_duplicates\<close>;
  \<^item> \<open>AnchorNotFound\<close>: the \<^verbatim>\<open>ValueError\<close> raised by \<^verbatim>\<open>list.index\<close> when the
    identifier searched for is not in the list;
  \<^item> \<open>SignatureMismatch\<close>: the \<^verbatim>\<open>ValueError\<close> raised by the owner's
    \<^verbatim>\<open>analyse_function\<close> hook;
  \<^item> \<open>MissingFunction\<close>: the \<^verbatim>\<open>RuntimeError\<close> raised by \<^verbatim>\<open>customize.customize\<close>;
  \<^item> \<open>KeyError\<close>, \<open>AttributeError\<close>, \<open>IndexError\<close>, \<open>TypeError\<close>, \<open>NameError\<close>,
    \<open>SyntaxError\<close>: the builtin exceptions of the same name;
  \<^item> \<open>ValueError\<close>: a \<^verbatim>\<open>ValueError\<close> raised anywhere else.
  A call that mutates its receiver returns the exception raised (if any) together with
  the state of the receiver at that moment.
\<close>

datatype error =
    DuplicateIdentifier
  | AnchorNotFound
  | SignatureMismatch
  | MissingFunction
  | KeyError
  | AttributeError
  | IndexError
  | TypeError
  | NameError
  | ValueError
  | SyntaxError

section \<open>Python list primitives\<close>

text \<open>\<^verbatim>\<open>xs.index(x)\<close>: position of the first occurrence, \<open>None\<close> where Python raises.\<close>

fun index_of :: "'a list \<Rightarrow> 'a \<Rightarrow> nat option" where
  "index_of [] x = None"
| "index_of (y # ys) x =
     (if y = x then Some 0
      else (case index_of ys x of None \<Rightarrow> None | Some i \<Rightarrow> Some (Suc i)))"

text \<open>\<^verbatim>\<open>xs.insert(i, x)\<close> for \<open>i \<ge> 0\<close>: an index past the end appends.\<close>

definition insert_at :: "nat \<Rightarrow> 'a \<Rightarrow> 'a list \<Rightarrow> 'a list" where
  "insert_at i x xs = take i xs @ x # drop i xs"

text \<open>\<^verbatim>\<open>del xs[i]\<close> for \<open>i \<ge> 0\<close>; callers test the range first.\<close>

definition delete_at :: "nat \<Rightarrow> 'a list \<Rightarrow> 'a list" where
  "delete_at i xs = take i xs @ drop (Suc i) xs"

section \<open>MethodComposer: the ordered pipeline\<close>

text \<open>
  The slots \<^verbatim>\<open>_names\<close>, \<^verbatim>\<open>_methods\<close>, \<^verbatim>\<open>_alias\<close>, \<^verbatim>\<open>_chain_on\<close> and
  \<^verbatim>\<open>_signatures\<close> of \<^verbatim>\<open>MethodComposer\<close>. The back reference \<^verbatim>\<open>__self__\<close> to the
  owner and the display name \<^verbatim>\<open>__name__\<close> are not read by any operation below and
  are left out; the owner is passed explicitly where a step is invoked.
\<close>

record 'f composer =
  c_names :: "string list"
  c_methods :: "'f list"
  c_alias :: "string"
  c_chain_on :: "string option"
  c_signatures :: "string list list option"

text \<open>\<^verbatim>\<open>MethodComposer.__init__\<close>.\<close>

definition composer_init ::
  "'f \<Rightarrow> string \<Rightarrow> string option \<Rightarrow> string \<Rightarrow> string list list option \<Rightarrow> 'f composer" where
  "composer_init func alias chain_on func_id signatures =
     \<lparr> c_names = [func_id], c_methods = [func], c_alias = alias,
       c_chain_on = chain_on, c_signatures = signatures \<rparr>"

text \<open>\<^verbatim>\<open>_check_duplicates\<close>: raises when the name is already an identifier.\<close>

definition check_duplicates :: "'f composer \<Rightarrow> string \<Rightarrow> error option" where
  "check_duplicates c name =
     (if name \<in> set (c_names c) then Some DuplicateIdentifier else None)"

definition prepend :: "'f composer \<Rightarrow> string \<Rightarrow> 'f \<Rightarrow> error option \<times> 'f composer" where
  "prepend c name method =
     (case check_duplicates c name of
        Some e \<Rightarrow> (Some e, c)
      | None \<Rightarrow>
          (None, c\<lparr> c_names := insert_at 0 name (c_names c),
                    c_methods := insert_at 0 method (c_methods c) \<rparr>))"

definition append_step :: "'f composer \<Rightarrow> string \<Rightarrow> 'f \<Rightarrow> error option \<times> 'f composer" where
  "append_step c name method =
     (case check_duplicates c name of
        Some e \<Rightarrow> (Some e, c)
      | None \<Rightarrow>
          (None, c\<lparr> c_names := c_names c @ [name],
                    c_methods := c_methods c @ [method] \<rparr>))"

definition add_after ::
  "'f composer \<Rightarrow> string \<Rightarrow> string \<Rightarrow> 'f \<Rightarrow> error option \<times> 'f composer" where
  "add_after c anchor name method =
     (case check_duplicates c name of
        Some e \<Rightarrow> (Some e, c)
      | None \<Rightarrow>
          (case index_of (c_names c) anchor of
             None \<Rightarrow> (Some AnchorNotFound, c)
           | Some i \<Rightarrow>
               (None, c\<lparr> c_names := insert_at (i + 1) name (c_names c),
                         c_methods := insert_at (i + 1) method (c_methods c) \<rparr>)))"

definition add_before ::
  "'f composer \<Rightarrow> string \<Rightarrow> string \<Rightarrow> 'f \<Rightarrow> error option \<times> 'f composer" where
  "add_before c anchor name method =
     (case check_duplicates c name of
        Some e \<Rightarrow> (Some e, c)
      | None \<Rightarrow>
          (case index_of (c_names c) anchor of
             None \<Rightarrow> (Some AnchorNotFound, c)
           | Some i \<Rightarrow>
               (None, c\<lparr> c_names := insert_at i name (c_names c),
                         c_methods := insert_at i method (c_methods c) \<rparr>)))"

text \<open>
  \<^verbatim>\<open>replace\<close>: the assignment \<^verbatim>\<open>self._methods[i] = method\<close> raises \<^verbatim>\<open>IndexError\<close>
  when the step list is shorter than the identifier list.
\<close>

definition replace :: "'f composer \<Rightarrow> string \<Rightarrow> 'f \<Rightarrow> error option \<times> 'f composer" where
  "replace c name method =
     (case index_of (c_names c) name of
        None \<Rightarrow> (Some AnchorNotFound, c)
      | Some i \<Rightarrow>
          (if i < length (c_methods c)
           then (None, c\<lparr> c_methods := (c_methods c)[i := method] \<rparr>)
           else (Some IndexError, c)))"

text \<open>
  \<^verbatim>\<open>remove\<close>: two deletions in a row; the second one raises \<^verbatim>\<open>IndexError\<close> after
  the first has been done when the step list is shorter than the identifier list.
\<close>

definition remove :: "'f composer \<Rightarrow> string \<Rightarrow> error option \<times> 'f composer" where
  "remove c name =
     (case index_of (c_names c) name of
        None \<Rightarrow> (Some AnchorNotFound, c)
      | Some i \<Rightarrow>
          (let c1 = c\<lparr> c_names := delete_at i (c_names c) \<rparr>
           in if i < length (c_methods c)
              then (None, c1\<lparr> c_methods := delete_at i (c_methods c) \<rparr>)
              else (Some IndexError, c1)))"

definition reset :: "'f composer \<Rightarrow> 'f composer" where
  "reset c = c\<lparr> c_names := [], c_methods := [] \<rparr>"

text \<open>
  \<^verbatim>\<open>clone\<close>: a new composer is built around the old one (which is its first step
  until the two lists are overwritten by copies). \<open>as_step\<close> is the value \<^verbatim>\<open>self\<close>
  as a step and \<open>signatures\<close> the signatures the new instance is given by
  \<^verbatim>\<open>MetaMethodComposer.__call__\<close>: those of the old composer, or the normalised
  signature of the old composer itself when it has none.
\<close>

definition clone :: "'f composer \<Rightarrow> 'f \<Rightarrow> string list list option \<Rightarrow> 'f composer" where
  "clone c as_step signatures =
     (let new = composer_init as_step (c_alias c) (c_chain_on c) [] signatures
      in new\<lparr> c_names := c_names c, c_methods := c_methods c \<rparr>)"

text \<open>\<^verbatim>\<open>__getitem__\<close> and \<^verbatim>\<open>__contains__\<close>.\<close>

definition getitem :: "'f composer \<Rightarrow> string \<Rightarrow> error + 'f" where
  "getitem c key =
     (case index_of (c_names c) key of
        None \<Rightarrow> Inl AnchorNotFound
      | Some i \<Rightarrow> (if i < length (c_methods c) then Inr (c_methods c ! i) else Inl IndexError))"

definition contains :: "'f composer \<Rightarrow> string \<Rightarrow> bool" where
  "contains c item = (item \<in> set (c_names c))"

text \<open>
  The pipeline invariant: as many steps as identifiers, identifiers pairwise distinct,
  and the step found under the identifier at position \<open>i\<close> is the step executed at
  position \<open>i\<close>.
\<close>

definition pipeline_inv :: "'f composer \<Rightarrow> bool" where
  "pipeline_inv c =
     (length (c_names c) = length (c_methods c) \<and> distinct (c_names c) \<and>
      (\<forall>i < length (c_names c).
          contains c (c_names c ! i) \<and> getitem c (c_names c ! i) = Inr (c_methods c ! i)))"

section \<open>Signature normalisation\<close>

text \<open>The parameter kinds of \<^verbatim>\<open>funcsigs\<close> and a parameter with its name and kind.\<close>

datatype param_kind =
    POSITIONAL_ONLY
  | POSITIONAL_OR_KEYWORD
  | VAR_POSITIONAL
  | KEYWORD_ONLY
  | VAR_KEYWORD

datatype param = Param (p_name: string) (p_kind: param_kind)

text \<open>
  \<^verbatim>\<open>norm_arg\<close>, the inner function of \<^verbatim>\<open>normalize_signature\<close>. The test
  \<^verbatim>\<open>if alias\<close> is Python truthiness: \<^verbatim>\<open>None\<close> and the empty string both fail it.
\<close>

definition norm_arg :: "param \<Rightarrow> string option \<Rightarrow> string" where
  "norm_arg arg alias =
     (let unaliased =
            (if p_kind arg = VAR_POSITIONAL then ''*'' @ p_name arg
             else if p_kind arg = VAR_KEYWORD then ''**'' @ p_name arg
             else p_name arg)
      in case alias of
           None \<Rightarrow> unaliased
         | Some a \<Rightarrow> (if a \<noteq> [] \<and> p_name arg = ''self'' then a else unaliased))"

definition normalize_signature :: "param list \<Rightarrow> string option \<Rightarrow> string list" where
  "normalize_signature sig alias = map (\<lambda>p. norm_arg p alias) sig"

section \<open>MetaMethodComposer: the cache of generated composer classes\<close>

text \<open>
  \<^verbatim>\<open>create_composer\<close> fills a template with the name of the class, the argument
  tokens \<^verbatim>\<open>sigs[0][1:]\<close> and the chain text \<^verbatim>\<open>chain_on or ''\<close>, executes the text and
  reads the class from the globals of the execution. \<open>join_with\<close> is \<^verbatim>\<open>str.join\<close> and
  \<open>class_text\<close> the text executed.
\<close>

fun join_with :: "string \<Rightarrow> string list \<Rightarrow> string" where
  "join_with sep [] = []"
| "join_with sep [x] = x"
| "join_with sep (x # y # ys) = x @ sep @ join_with sep (y # ys)"

definition class_text :: "string \<Rightarrow> string list \<Rightarrow> string \<Rightarrow> string" where
  "class_text name sig chain =
     (let args = (if sig = [] then [] else '', '' @ join_with '', '' sig);
          ret = (if chain = [] then [] else chain @ '' = '')
      in ''class '' @ name @ ''(cls):'' @ [CHR 0x0A] @
         ''    __slots__ = ('' @ [CHR 0x22] @ ''sigs'' @ [CHR 0x22] @ '',)'' @ [CHR 0x0A] @
         ''    def __call__(self'' @ args @ ''):'' @ [CHR 0x0A] @
         ''         for m in self._methods:'' @ [CHR 0x0A] @
         ''            '' @ ret @ ''m(self.__self__'' @ args @ '')'' @ [CHR 0x0A] @
         ''         return '' @ chain)"

text \<open>
  Names as Python reads them: an identifier is a letter or an underscore followed by
  letters, digits and underscores. A \<open>variable\<close> is an identifier that can stand for a
  parameter of the generated method and be assigned in its body, in every version of
  Python: no keyword of Python 2 or 3, not \<^verbatim>\<open>self\<close> (the first parameter of the
  template), and no name starting with two underscores (such names are mangled or
  reserved inside a class).
\<close>

definition letter :: "char \<Rightarrow> bool" where
  "letter c = (c \<in> set ''abcdefghijklmnopqrstuvwxyzABCDEFGHIJKLMNOPQRSTUVWXYZ_'')"

definition digit :: "char \<Rightarrow> bool" where
  "digit c = (c \<in> set ''0123456789'')"

definition is_identifier :: "string \<Rightarrow> bool" where
  "is_identifier s =
     (case s of [] \<Rightarrow> False | c # cs \<Rightarrow> letter c \<and> list_all (\<lambda>d. letter d \<or> digit d) cs)"

definition reserved_words :: "string list" where
  "reserved_words =
     [''False'', ''None'', ''True'', ''and'', ''as'', ''assert'', ''async'', ''await'',
      ''break'', ''class'', ''continue'', ''def'', ''del'', ''elif'', ''else'', ''except'',
      ''exec'', ''finally'', ''for'', ''from'', ''global'', ''if'', ''import'', ''in'', ''is'',
      ''lambda'', ''nonlocal'', ''not'', ''or'', ''pass'', ''print'', ''raise'', ''return'',
      ''try'', ''while'', ''with'', ''yield'']"

definition variable :: "string \<Rightarrow> bool" where
  "variable s =
     (is_identifier s \<and> s \<notin> set reserved_words \<and> s \<noteq> ''self'' \<and> take 2 s \<noteq> ''__'')"

text \<open>
  The targets of the assignment \<^verbatim>\<open>chain = m(...)\<close>: the chain text is a comma separated
  list of names, with blanks around them.
\<close>

fun split_commas :: "string \<Rightarrow> string list" where
  "split_commas [] = [[]]"
| "split_commas (c # cs) =
     (if c = CHR '','' then [] # split_commas cs
      else (case split_commas cs of [] \<Rightarrow> [[c]] | w # ws \<Rightarrow> (c # w) # ws))"

definition strip :: "string \<Rightarrow> string" where
  "strip s = rev (dropWhile (\<lambda>c. c = CHR '' '') (rev (dropWhile (\<lambda>c. c = CHR '' '') s)))"

definition chain_targets :: "string \<Rightarrow> string list" where
  "chain_targets chain = (if chain = [] then [] else map strip (split_commas chain))"

text \<open>
  What executing the text does is decided by the Python interpreter, which is not part
  of the repository. Three kinds of text are told apart.
  \<^item> The text is \<open>plain\<close>: the name of the class is an identifier, the argument tokens
    are distinct variables, fewer than 255 (older versions of Python refuse more), and
    the chain text is empty or a list of variables. The
    text then is a class definition. The class is described by its name, the
    parameters of its \<^verbatim>\<open>__call__\<close> after \<^verbatim>\<open>self\<close> and the targets of the assignment
    in the loop; the section on invocation interprets it.
  \<^item> The text is \<open>refused\<close>: the statement \<^verbatim>\<open>class\<close> needs a name, so a text in which
    the keyword is followed by a digit or by an operator raises \<^verbatim>\<open>SyntaxError\<close>
    whatever comes after. (A text with a null character is not compiled at all, with
    an exception that depends on the version of Python.)
  \<^item> Every other text (tokens with stars or default values, injected statements, other
    characters) is handed to the interpreter, a parameter: \<open>py_exec\<close> gives the exception
    raised by \<^verbatim>\<open>exec_(decl, glob)\<close> or the classes found in \<^verbatim>\<open>glob\<close> afterwards, and
    \<open>py_construct\<close> what instantiating such a class raises or returns.
\<close>

record shape =
  sh_name :: string
  sh_params :: "string list"
  sh_targets :: "string list"

datatype 'c composer_class = Generated shape | Foreign 'c

record ('c, 'f) python =
  py_exec :: "string \<Rightarrow> error + (string \<Rightarrow> 'c option)"
  py_construct :: "'c \<Rightarrow> 'f \<Rightarrow> string \<Rightarrow> string option \<Rightarrow> string \<Rightarrow> string list list \<Rightarrow>
                error + 'f composer"

definition plain :: "string \<Rightarrow> string list \<Rightarrow> string \<Rightarrow> bool" where
  "plain name sig chain =
     (is_identifier name \<and> name \<notin> set reserved_words \<and>
      list_all variable sig \<and> distinct sig \<and> length sig < 255 \<and>
      list_all variable (chain_targets chain))"

definition refused :: "string \<Rightarrow> string \<Rightarrow> bool" where
  "refused name decl =
     (CHR 0x00 \<notin> set decl \<and>
      (case name of
         [] \<Rightarrow> False
       | c # cs \<Rightarrow> c \<in> set ''0123456789<>()[]{}+-*/%&|^~=!.,:;@$?''))"

definition create_composer ::
  "('c, 'f) python \<Rightarrow> string \<Rightarrow> string list list \<Rightarrow> string option \<Rightarrow>
   error + 'c composer_class" where
  "create_composer py name sigs chain_on =
     (let chain = (case chain_on of None \<Rightarrow> [] | Some ch \<Rightarrow> ch);
          class_name = name @ ''Composer''
      in case sigs of
           [] \<Rightarrow> Inl IndexError
         | s # _ \<Rightarrow>
             (let sig = tl s;
                  decl = class_text class_name sig chain
              in if plain class_name sig chain
                 then Inr (Generated \<lparr> sh_name = class_name, sh_params = sig,
                                       sh_targets = chain_targets chain \<rparr>)
                 else if refused class_name decl then Inl SyntaxError
                 else (case py_exec py decl of
                         Inl e \<Rightarrow> Inl e
                       | Inr glob \<Rightarrow>
                           (case glob class_name of
                              None \<Rightarrow> Inl KeyError
                            | Some cls \<Rightarrow> Inr (Foreign cls)))))"

text \<open>
  The class attribute \<^verbatim>\<open>MetaMethodComposer.sigs\<close> maps a key to a class object. Class
  objects are compared by identity: a class object is the class together with its
  rank among the classes created so far, and the cache counts the classes created.
\<close>

type_synonym cache_key = "string list list \<times> string option"

record 'c type_cache =
  tc_sigs :: "cache_key \<Rightarrow> (nat \<times> 'c composer_class) option"
  tc_created :: nat

definition empty_cache :: "'c type_cache" where
  "empty_cache = \<lparr> tc_sigs = (\<lambda>k. None), tc_created = 0 \<rparr>"

text \<open>
  The signatures used for a new composer: \<^verbatim>\<open>if not signatures\<close> holds for \<^verbatim>\<open>None\<close>
  and for the empty list.
\<close>

definition effective_sigs ::
  "param list \<Rightarrow> string \<Rightarrow> string list list option \<Rightarrow> string list list" where
  "effective_sigs func_sig alias signatures =
     (case signatures of
        None \<Rightarrow> [normalize_signature func_sig (Some alias)]
      | Some [] \<Rightarrow> [normalize_signature func_sig (Some alias)]
      | Some (s # ss) \<Rightarrow> s # ss)"

text \<open>
  \<^verbatim>\<open>MetaMethodComposer.__call__\<close> up to the assignment of \<^verbatim>\<open>custom_type\<close>: the class
  object the new composer will be an instance of, and the cache afterwards. \<open>func_name\<close>
  and \<open>func_sig\<close> are \<^verbatim>\<open>func.__name__\<close> and \<^verbatim>\<open>signature(func)\<close>. The cache is written
  after \<^verbatim>\<open>create_composer\<close> has returned, so it is as it was when that call raises.
\<close>

definition custom_type ::
  "('c, 'f) python \<Rightarrow> 'c type_cache \<Rightarrow> string \<Rightarrow> param list \<Rightarrow> string \<Rightarrow> string option \<Rightarrow>
   string list list option \<Rightarrow> (error + nat \<times> 'c composer_class) \<times> 'c type_cache" where
  "custom_type py tc func_name func_sig alias chain_on signatures =
     (let sigs = effective_sigs func_sig alias signatures;
          id = (sigs, chain_on)
      in case tc_sigs tc id of
           Some cls \<Rightarrow> (Inr cls, tc)
         | None \<Rightarrow>
             (case create_composer py func_name sigs chain_on of
                Inl e \<Rightarrow> (Inl e, tc)
              | Inr subclass \<Rightarrow>
                  (Inr (tc_created tc, subclass),
                   \<lparr> tc_sigs = (tc_sigs tc)(id := Some (tc_created tc, subclass)),
                     tc_created = Suc (tc_created tc) \<rparr>)))"

text \<open>
  The whole of \<^verbatim>\<open>MetaMethodComposer.__call__\<close>: the class is instantiated with the
  signatures computed. A generated class inherits \<^verbatim>\<open>MethodComposer.__init__\<close>. The
  result is the exception raised, or the class object and the new instance, and the
  cache.
\<close>

definition meta_call ::
  "('c, 'f) python \<Rightarrow> 'c type_cache \<Rightarrow> 'f \<Rightarrow> string \<Rightarrow> param list \<Rightarrow> string \<Rightarrow> string option \<Rightarrow>
   string \<Rightarrow> string list list option \<Rightarrow>
   (error + (nat \<times> 'c composer_class) \<times> 'f composer) \<times> 'c type_cache" where
  "meta_call py tc func func_name func_sig alias chain_on func_id signatures =
     (let sigs = effective_sigs func_sig alias signatures
      in case custom_type py tc func_name func_sig alias chain_on signatures of
           (Inl e, tc') \<Rightarrow> (Inl e, tc')
         | (Inr (rank, Generated sh), tc') \<Rightarrow>
             (Inr ((rank, Generated sh), composer_init func alias chain_on func_id (Some sigs)),
              tc')
         | (Inr (rank, Foreign cls), tc') \<Rightarrow>
             (case py_construct py cls func alias chain_on func_id sigs of
                Inl e \<Rightarrow> (Inl e, tc')
              | Inr instance \<Rightarrow> (Inr ((rank, Foreign cls), instance), tc')))"





section \<open>Invocation of a composer\<close>

text \<open>
  The \<^verbatim>\<open>__call__\<close> method of a generated class with the parameters \<^verbatim>\<open>a, b\<close> and the
  chain text \<^verbatim>\<open>ch\<close> is
  \<^verbatim>\<open>def __call__(self, a, b): for m in self._methods: ch = m(self.__self__, a, b)\<close>
  followed by \<^verbatim>\<open>return ch\<close>; with an empty chain text the loop body is the bare call
  and the last line is a bare \<^verbatim>\<open>return\<close>.

  Values are Python objects as far as the chaining needs them: \<^verbatim>\<open>None\<close>, integers,
  tuples, and the function objects held by the pipeline (\<open>VStep k\<close> is the object at
  position \<open>k\<close> of \<^verbatim>\<open>_methods\<close>). A step is a function of the owner's state and the
  argument values which raises or returns a value, and leaves the owner in a new
  state.
\<close>

datatype val = VNone | VInt int | VTuple "val list" | VStep nat

type_synonym 's step = "'s \<Rightarrow> val list \<Rightarrow> (error + val) \<times> 's"

text \<open>
  The local variables of the generated method other than \<^verbatim>\<open>self\<close>, most recent
  binding first: the parameters, the loop variable \<^verbatim>\<open>m\<close> and the targets.
\<close>

type_synonym locals = "(string \<times> val) list"

text \<open>Reading the current values of the parameters for the call of a step.\<close>

fun read_locals :: "locals \<Rightarrow> string list \<Rightarrow> val list option" where
  "read_locals env [] = Some []"
| "read_locals env (p # ps) =
     (case map_of env p of
        None \<Rightarrow> None
      | Some v \<Rightarrow> (case read_locals env ps of None \<Rightarrow> None | Some vs \<Rightarrow> Some (v # vs)))"

text \<open>
  The assignment of a step's result: no target, nothing is bound; one target, the value
  is bound to it; several targets, the value is unpacked, which raises \<^verbatim>\<open>TypeError\<close>
  for a value that is not a tuple and \<^verbatim>\<open>ValueError\<close> for a tuple of another length.
\<close>

definition assign :: "string list \<Rightarrow> val \<Rightarrow> locals \<Rightarrow> error + locals" where
  "assign targets r env =
     (case targets of
        [] \<Rightarrow> Inr env
      | [t] \<Rightarrow> Inr ((t, r) # env)
      | _ \<Rightarrow>
          (case r of
             VTuple vs \<Rightarrow>
               (if length vs = length targets then Inr (rev (zip targets vs) @ env)
                else Inl ValueError)
           | _ \<Rightarrow> Inl TypeError))"

text \<open>
  The loop \<^verbatim>\<open>for m in self._methods\<close>, from position \<open>k\<close> on: the loop variable is
  bound to the function object, the arguments are read, the function is called, and
  its result is assigned. An exception raised by a step leaves the loop.
\<close>

fun run_steps ::
  "string list \<Rightarrow> string list \<Rightarrow> 's step list \<Rightarrow> nat \<Rightarrow> locals \<Rightarrow> 's \<Rightarrow> (error + locals) \<times> 's" where
  "run_steps targets params [] k env s = (Inr env, s)"
| "run_steps targets params (m # ms) k env s =
     (let env = (''m'', VStep k) # env
      in case read_locals env params of
           None \<Rightarrow> (Inl NameError, s)
         | Some args \<Rightarrow>
             (case m s args of
                (Inl e, s') \<Rightarrow> (Inl e, s')
              | (Inr r, s') \<Rightarrow>
                  (case assign targets r env of
                     Inl e \<Rightarrow> (Inl e, s')
                   | Inr env' \<Rightarrow> run_steps targets params ms (Suc k) env' s')))"

text \<open>
  The final \<^verbatim>\<open>return\<close>: \<^verbatim>\<open>None\<close> without a target, the value of the target, or the
  tuple of the values of several targets; a target never assigned and not a parameter
  is an unbound local.
\<close>

definition return_value :: "string list \<Rightarrow> locals \<Rightarrow> error + val" where
  "return_value targets env =
     (case targets of
        [] \<Rightarrow> Inr VNone
      | [t] \<Rightarrow> (case map_of env t of None \<Rightarrow> Inl NameError | Some v \<Rightarrow> Inr v)
      | _ \<Rightarrow> (case read_locals env targets of None \<Rightarrow> Inl NameError | Some vs \<Rightarrow> Inr (VTuple vs)))"

text \<open>
  The end of \<^verbatim>\<open>__call__\<close>: an exception of the loop is passed on, otherwise the
  \<^verbatim>\<open>return\<close> is evaluated in the final locals.
\<close>

definition finish :: "string list \<Rightarrow> (error + locals) \<times> 's \<Rightarrow> (error + val) \<times> 's" where
  "finish ts r = (case r of (Inl e, s) \<Rightarrow> (Inl e, s) | (Inr env, s) \<Rightarrow> (return_value ts env, s))"

text \<open>
  Calling a composer that is an instance of a generated class with positional
  arguments: the arguments are bound to the parameters (\<^verbatim>\<open>TypeError\<close> on a wrong number
  of them), the steps run in the order of \<^verbatim>\<open>_methods\<close>, and the value is returned.
\<close>

definition invoke ::
  "shape \<Rightarrow> 's step composer \<Rightarrow> 's \<Rightarrow> val list \<Rightarrow> (error + val) \<times> 's" where
  "invoke sh c owner args =
     (if length args \<noteq> length (sh_params sh) then (Inl TypeError, owner)
      else finish (sh_targets sh)
             (run_steps (sh_targets sh) (sh_params sh) (c_methods c) 0
                (zip (sh_params sh) args) owner))"

section \<open>Directives, ledgers and owning objects\<close>

text \<open>
  The \<^verbatim>\<open>specifiers\<close> tuple of the source: \<^verbatim>\<open>()\<close> is \<open>Replace\<close>,
  \<^verbatim>\<open>('prepend',)\<close> is \<open>Prepend\<close>, \<^verbatim>\<open>('append',)\<close> is \<open>Append\<close>,
  \<^verbatim>\<open>('add_before', a)\<close> is \<open>InsertBefore a\<close>, \<^verbatim>\<open>('add_after', a)\<close> is
  \<open>InsertAfter a\<close>, \<^verbatim>\<open>('replace', a)\<close> is \<open>ReplaceNamed a\<close> and
  \<^verbatim>\<open>('remove', a)\<close> is \<open>Remove a\<close>. Tuples of another shape are not values of
  this type.
\<close>

datatype directive =
    Replace
  | Prepend
  | Append
  | InsertBefore string
  | InsertAfter string
  | ReplaceNamed string
  | Remove string

text \<open>
  The value of a customisable method on an owning object: a bound plain function or a
  composer.
\<close>

datatype 'f slot = Plain 'f | Composed "'f composer"

text \<open>
  An entry of \<^verbatim>\<open>_customs\<close>: a plain function (a whole replacement) or an
  \<^verbatim>\<open>OrderedDict\<close> from modification identifier to the pair of function and
  specifiers. An \<^verbatim>\<open>OrderedDict\<close> is an association list with distinct keys in
  insertion order.
\<close>

datatype 'f custom = Whole 'f | Mods "(string \<times> 'f \<times> directive) list"

text \<open>\<^verbatim>\<open>d[k] = v\<close>: a present key keeps its position, a new key goes last.\<close>

fun od_set :: "'k \<Rightarrow> 'v \<Rightarrow> ('k \<times> 'v) list \<Rightarrow> ('k \<times> 'v) list" where
  "od_set k v [] = [(k, v)]"
| "od_set k v (kv # kvs) = (if fst kv = k then (k, v) # kvs else kv # od_set k v kvs)"

text \<open>\<^verbatim>\<open>del d[k]\<close> for a present key.\<close>

definition od_del :: "'k \<Rightarrow> ('k \<times> 'v) list \<Rightarrow> ('k \<times> 'v) list" where
  "od_del k kvs = filter (\<lambda>kv. fst kv \<noteq> k) kvs"

text \<open>
  The state of a \<^verbatim>\<open>SupportMethodCustomization\<close> object: \<^verbatim>\<open>_customs\<close>,
  \<^verbatim>\<open>_old_ids\<close>, the attributes holding its customisable methods, and the value of
  its \<^verbatim>\<open>self_alias\<close> property.
\<close>

record 'f customizable =
  customs :: "(string \<times> 'f custom) list"
  old_ids :: "string \<Rightarrow> string option"
  slots :: "string \<Rightarrow> 'f slot option"
  self_alias :: string

text \<open>
  What the engine needs from outside: the abstract method \<^verbatim>\<open>analyse_function\<close> of
  the owning object, which raises or returns the (possibly rewritten) specifiers, the
  signatures and the chain text, and \<^verbatim>\<open>funcsigs.signature\<close>.
\<close>

record 'f hooks =
  analyse_function ::
    "'f customizable \<Rightarrow> string \<Rightarrow> 'f \<Rightarrow> directive \<Rightarrow>
     error + (directive \<times> string list list option \<times> string option)"
  signature :: "'f \<Rightarrow> param list"

section \<open>modify_behavior\<close>

text \<open>
  The first block of \<^verbatim>\<open>modify_behavior\<close> for a call that is not internal: the
  entry of \<^verbatim>\<open>_customs\<close> for the method is set to the function, created empty, or
  turned from a function into a dictionary.
\<close>

definition record_intent ::
  "'f customizable \<Rightarrow> string \<Rightarrow> 'f \<Rightarrow> directive \<Rightarrow> 'f customizable" where
  "record_intent self method_name func specifiers =
     (if specifiers = Replace
      then self\<lparr> customs := od_set method_name (Whole func) (customs self) \<rparr>
      else
        (case map_of (customs self) method_name of
           None \<Rightarrow> self\<lparr> customs := od_set method_name (Mods []) (customs self) \<rparr>
         | Some (Whole old) \<Rightarrow>
             self\<lparr> customs := od_set method_name (Mods [(''old'', old, Prepend)]) (customs self) \<rparr>
         | Some (Mods ms) \<Rightarrow> self))"

text \<open>
  The update of the composer. With empty specifiers the source has returned before;
  \<^verbatim>\<open>specifiers[0]\<close> would raise \<^verbatim>\<open>IndexError\<close>.
\<close>

definition apply_directive ::
  "'f composer \<Rightarrow> directive \<Rightarrow> string \<Rightarrow> 'f \<Rightarrow> error option \<times> 'f composer" where
  "apply_directive composer specifiers modif_id func =
     (case specifiers of
        InsertBefore anchor \<Rightarrow> add_before composer anchor modif_id func
      | InsertAfter anchor \<Rightarrow> add_after composer anchor modif_id func
      | ReplaceNamed anchor \<Rightarrow> replace composer anchor func
      | Remove anchor \<Rightarrow> remove composer anchor
      | Prepend \<Rightarrow> prepend composer modif_id func
      | Append \<Rightarrow> append_step composer modif_id func
      | Replace \<Rightarrow> (Some IndexError, composer))"

text \<open>
  The last block of \<^verbatim>\<open>modify_behavior\<close>, the update of the dictionary
  \<^verbatim>\<open>self._customs[method_name]\<close>. Where that entry is a plain function, the deletion,
  the membership test and the item assignment all raise \<^verbatim>\<open>TypeError\<close>.
\<close>

definition update_ledger ::
  "'f customizable \<Rightarrow> string \<Rightarrow> 'f composer \<Rightarrow> directive \<Rightarrow> string \<Rightarrow> 'f \<Rightarrow>
   error option \<times> 'f customizable" where
  "update_ledger self method_name composer specifiers modif_id func =
     (case map_of (customs self) method_name of
        None \<Rightarrow> (Some KeyError, self)
      | Some (Whole old) \<Rightarrow> (Some TypeError, self)
      | Some (Mods ms) \<Rightarrow>
          (let store = (\<lambda>ms'. (None, self\<lparr> customs := od_set method_name (Mods ms') (customs self) \<rparr>))
           in case specifiers of
                Remove anchor \<Rightarrow>
                  (if modif_id \<in> fst ` set ms then store (od_del modif_id ms)
                   else (Some KeyError, self))
              | ReplaceNamed replaced \<Rightarrow>
                  (case map_of ms replaced of
                     Some (old_func, old_specifiers) \<Rightarrow>
                       store (od_set replaced (func, old_specifiers) ms)
                   | None \<Rightarrow>
                       (case index_of (c_names composer) replaced of
                          None \<Rightarrow> (Some AnchorNotFound, self)
                        | Some ind \<Rightarrow>
                            (if ind = 0 then store (od_set replaced (func, Prepend) ms)
                             else store (od_set replaced
                                    (func, InsertAfter (c_names composer ! (ind - 1))) ms))))
              | _ \<Rightarrow> store (od_set modif_id (func, specifiers) ms)))"

text \<open>
  The composer built when the method is still a plain function: the call
  \<^verbatim>\<open>MethodComposer(...)\<close> goes through \<^verbatim>\<open>MetaMethodComposer.__call__\<close>, which
  passes the signatures it computed to \<^verbatim>\<open>__init__\<close>. The class chosen there decides
  how the composer is invoked and nothing else, so the class cache is not threaded
  through the state of the object.
\<close>

definition new_composer ::
  "'f hooks \<Rightarrow> 'f customizable \<Rightarrow> 'f \<Rightarrow> string option \<Rightarrow> string \<Rightarrow>
   string list list option \<Rightarrow> 'f composer" where
  "new_composer H self func chain_on func_id signatures =
     composer_init func (self_alias self) chain_on func_id
       (Some (effective_sigs (signature H func) (self_alias self) signatures))"

definition is_remove :: "directive \<Rightarrow> bool" where
  "is_remove specifiers = (case specifiers of Remove anchor \<Rightarrow> True | _ \<Rightarrow> False)"

text \<open>
  The part of \<^verbatim>\<open>modify_behavior\<close> after the analysis of the function, from the
  test \<^verbatim>\<open>if not specifiers\<close> on the analysed specifiers to the end. A composer
  already bound to the method is mutated in place, so its state at the moment of an
  exception stays visible on the object; a composer built by this call is bound only
  once its update has succeeded. Binding a whole replacement with \<^verbatim>\<open>MethodType\<close>
  takes the function to be callable.
\<close>

definition install ::
  "'f hooks \<Rightarrow> 'f customizable \<Rightarrow> string \<Rightarrow> 'f \<Rightarrow> directive \<Rightarrow> string \<Rightarrow>
   string list list option \<Rightarrow> string option \<Rightarrow> bool \<Rightarrow> error option \<times> 'f customizable" where
  "install H self method_name func specifiers modif_id sigs chain_on internal =
     (if specifiers = Replace
      then (None, self\<lparr> old_ids := (old_ids self)(method_name := Some modif_id),
                        slots := (slots self)(method_name := Some (Plain func)) \<rparr>)
      else
        (case slots self method_name of
           None \<Rightarrow> (Some AttributeError, self)
         | Some current \<Rightarrow>
             (let composer =
                    (case current of
                       Composed c \<Rightarrow> c
                     | Plain old_func \<Rightarrow>
                         new_composer H self old_func chain_on
                           (case old_ids self method_name of None \<Rightarrow> ''old'' | Some i \<Rightarrow> i)
                           sigs)
              in case apply_directive composer specifiers modif_id func of
                   (Some e, composer') \<Rightarrow>
                     (Some e,
                      (case current of
                         Composed c \<Rightarrow>
                           self\<lparr> slots := (slots self)(method_name := Some (Composed composer')) \<rparr>
                       | Plain old_func \<Rightarrow> self))
                 | (None, composer') \<Rightarrow>
                     (let self2 = self\<lparr> slots :=
                            (slots self)(method_name := Some (Composed composer')) \<rparr>
                      in if \<not> internal
                         then update_ledger self2 method_name composer' specifiers modif_id func
                         else (None, self2)))))"

text \<open>
  \<^verbatim>\<open>modify_behavior\<close>: the identifier of a whole replacement is \<^verbatim>\<open>'old'\<close>, the
  intent is recorded unless the call is internal, the function is analysed unless the
  specifiers are a removal, and the method is updated with the analysed specifiers.
\<close>

definition modify_behavior ::
  "'f hooks \<Rightarrow> 'f customizable \<Rightarrow> string \<Rightarrow> 'f \<Rightarrow> directive \<Rightarrow> string \<Rightarrow> bool \<Rightarrow>
   error option \<times> 'f customizable" where
  "modify_behavior H self method_name func specifiers modif_id0 internal =
     (let modif_id = (if specifiers \<noteq> Replace then modif_id0 else ''old'');
          self1 = (if \<not> internal then record_intent self method_name func specifiers else self);
          analysed =
            (if specifiers = Replace \<or> \<not> is_remove specifiers
             then analyse_function H self1 method_name func specifiers
             else Inr (specifiers, None, None))
      in case analysed of
           Inl e \<Rightarrow> (Some e, self1)
         | Inr (specifiers', sigs, chain_on) \<Rightarrow>
             install H self1 method_name func specifiers' modif_id sigs chain_on internal)"

section \<open>copy_custom_behaviors\<close>

text \<open>
  The search loop of \<^verbatim>\<open>copy_custom_behaviors\<close>:
  \<^verbatim>\<open>while index > 0 and index < len(names)-1: index += shift; name = names[index]\<close>,
  left by \<^verbatim>\<open>break\<close> with \<^verbatim>\<open>shift = 0\<close> at the first name found in
  \<^verbatim>\<open>our_names\<close>. The result is that name, or \<open>None\<close> when the loop ends with
  \<^verbatim>\<open>shift\<close> unchanged. \<^verbatim>\<open>shift\<close> is not zero when the loop is entered and is only
  set to zero on leaving it; the test \<open>shift \<noteq> 0\<close> states this and makes the
  recursion total.
\<close>

function scan :: "string list \<Rightarrow> string list \<Rightarrow> int \<Rightarrow> int \<Rightarrow> string option" where
  "scan names our_names shift index =
     (if shift \<noteq> 0 \<and> index > 0 \<and> index < int (length names) - 1
      then (let index' = index + shift;
                name = names ! nat index'
            in if name \<in> set our_names then Some name
               else scan names our_names shift index')
      else None)"
  by pat_completeness auto
termination
  by (relation "measure (\<lambda>(names, our_names, shift, index).
        if shift < 0 then nat index else nat (int (length names) - index))") auto

text \<open>The specifiers \<^verbatim>\<open>(specifiers[0], name)\<close> for an anchored insertion.\<close>

definition with_anchor :: "directive \<Rightarrow> string \<Rightarrow> directive" where
  "with_anchor specifiers name =
     (case specifiers of
        InsertAfter a \<Rightarrow> InsertAfter name
      | InsertBefore a \<Rightarrow> InsertBefore name
      | d \<Rightarrow> d)"

definition is_add_after :: "directive \<Rightarrow> bool" where
  "is_add_after specifiers = (case specifiers of InsertAfter a \<Rightarrow> True | _ \<Rightarrow> False)"

text \<open>
  The body of the inner loop for one entry \<^verbatim>\<open>custom, (func, specifiers)\<close> of the
  dictionary of modifications of \<open>meth_name\<close> on the source object \<open>obj\<close>.
\<close>

definition copy_one ::
  "'f hooks \<Rightarrow> 'f customizable \<Rightarrow> 'f customizable \<Rightarrow> string \<Rightarrow> string \<times> 'f \<times> directive \<Rightarrow>
   error option \<times> 'f customizable" where
  "copy_one H self obj meth_name entry =
     (case entry of (custom, func, specifiers) \<Rightarrow>
        (case slots self meth_name of
           None \<Rightarrow> (Some AttributeError, self)
         | Some method \<Rightarrow>
             (case specifiers of
                Replace \<Rightarrow> (Some IndexError, self)
              | Prepend \<Rightarrow> modify_behavior H self meth_name func specifiers custom False
              | Append \<Rightarrow> modify_behavior H self meth_name func specifiers custom False
              | ReplaceNamed a \<Rightarrow> modify_behavior H self meth_name func specifiers custom False
              | Remove a \<Rightarrow> modify_behavior H self meth_name func specifiers custom False
              | _ \<Rightarrow>
                  (case method of
                     Plain g \<Rightarrow>
                       modify_behavior H self meth_name func
                         (if is_add_after specifiers then Append else Prepend) custom False
                   | Composed ours \<Rightarrow>
                       (let our_names = c_names ours;
                            anchor = (case specifiers of InsertAfter a \<Rightarrow> a
                                      | InsertBefore a \<Rightarrow> a | _ \<Rightarrow> [])
                        in if anchor \<in> set our_names
                           then modify_behavior H self meth_name func specifiers custom False
                           else
                             (case slots obj meth_name of
                                None \<Rightarrow> (Some AttributeError, self)
                              | Some (Plain g) \<Rightarrow> (Some AttributeError, self)
                              | Some (Composed theirs) \<Rightarrow>
                                  (let names = c_names theirs;
                                       shift = (if is_add_after specifiers then - 1 else - 1 :: int)
                                   in case index_of names custom of
                                        None \<Rightarrow> (Some AnchorNotFound, self)
                                      | Some index \<Rightarrow>
                                          (case scan names our_names shift (int index) of
                                             Some name \<Rightarrow>
                                               modify_behavior H self meth_name func
                                                 (with_anchor specifiers name) custom False
                                           | None \<Rightarrow>
                                               modify_behavior H self meth_name func
                                                 (if shift = - 1 then Prepend else Append)
                                                 custom False))))))))"

text \<open>The inner loop: the entries in order, up to the first exception.\<close>

fun copy_entries ::
  "'f hooks \<Rightarrow> 'f customizable \<Rightarrow> 'f customizable \<Rightarrow> string \<Rightarrow>
   (string \<times> 'f \<times> directive) list \<Rightarrow> error option \<times> 'f customizable" where
  "copy_entries H self obj meth_name [] = (None, self)"
| "copy_entries H self obj meth_name (entry # entries) =
     (case copy_one H self obj meth_name entry of
        (Some e, self') \<Rightarrow> (Some e, self')
      | (None, self') \<Rightarrow> copy_entries H self' obj meth_name entries)"

text \<open>
  The outer loop over \<^verbatim>\<open>obj._customs.items()\<close>; a plain function is replayed by
  \<^verbatim>\<open>self.modify_behavior(meth_name, modifiers)\<close>, with the default specifiers
  \<^verbatim>\<open>()\<close> and identifier \<^verbatim>\<open>'custom'\<close>.
\<close>

fun copy_methods ::
  "'f hooks \<Rightarrow> 'f customizable \<Rightarrow> 'f customizable \<Rightarrow> (string \<times> 'f custom) list \<Rightarrow>
   error option \<times> 'f customizable" where
  "copy_methods H self obj [] = (None, self)"
| "copy_methods H self obj ((meth_name, modifiers) # rest) =
     (case (case modifiers of
              Whole func \<Rightarrow> modify_behavior H self meth_name func Replace ''custom'' False
            | Mods entries \<Rightarrow> copy_entries H self obj meth_name entries) of
        (Some e, self') \<Rightarrow> (Some e, self')
      | (None, self') \<Rightarrow> copy_methods H self' obj rest)"

text \<open>
  \<^verbatim>\<open>self.copy_custom_behaviors(obj)\<close> for two different objects: \<open>self\<close> is the
  target, \<open>obj\<close> the source.
\<close>

definition copy_custom_behaviors ::
  "'f hooks \<Rightarrow> 'f customizable \<Rightarrow> 'f customizable \<Rightarrow> error option \<times> 'f customizable" where
  "copy_custom_behaviors H self obj = copy_methods H self obj (customs obj)"

section \<open>The customize declaration\<close>

text \<open>
  The slots of \<^verbatim>\<open>customize\<close>; \<open>cz_func\<close> is \<^verbatim>\<open>None\<close> until the declaration is used
  as a decorator. The function is handed on as it is, so the steps of the customised
  object are optional functions.
\<close>

record 'g customize =
  cz_desc_name :: string
  cz_meth_name :: string
  cz_specifiers :: directive
  cz_modif_id :: string
  cz_func :: "'g option"

text \<open>\<^verbatim>\<open>customize.__init__\<close> and \<^verbatim>\<open>customize.__call__\<close>.\<close>

definition customize_init :: "string \<Rightarrow> string \<Rightarrow> directive \<Rightarrow> string \<Rightarrow> 'g customize" where
  "customize_init dn mn spec mid =
     \<lparr> cz_desc_name = dn, cz_meth_name = mn, cz_specifiers = spec, cz_modif_id = mid,
       cz_func = None \<rparr>"

definition decorate :: "'g customize \<Rightarrow> 'g \<Rightarrow> 'g customize" where
  "decorate cz func = cz\<lparr> cz_func := Some func \<rparr>"

text \<open>
  \<^verbatim>\<open>customize.customize\<close>: the owner is the table of its descriptors; a missing
  descriptor raises \<^verbatim>\<open>AttributeError\<close>. Every descriptor of the table supports
  customisation, so the assertion on its type holds.
\<close>

definition customize ::
  "('g option) hooks \<Rightarrow> 'g customize \<Rightarrow> (string \<Rightarrow> ('g option) customizable option) \<Rightarrow>
   error option \<times> (string \<Rightarrow> ('g option) customizable option)" where
  "customize H cz owner =
     (let spec = cz_specifiers cz
      in if cz_func cz = None \<and> (spec = Replace \<or> is_remove spec)
         then (Some MissingFunction, owner)
         else
           (case owner (cz_desc_name cz) of
              None \<Rightarrow> (Some AttributeError, owner)
            | Some desc \<Rightarrow>
                (case modify_behavior H desc (cz_meth_name cz) (cz_func cz) (cz_specifiers cz)
                        (cz_modif_id cz) False of
                   (e, desc') \<Rightarrow> (e, owner(cz_desc_name cz := Some desc')))))"

text \<open>
  A sequence of calls of \<^verbatim>\<open>modify_behavior\<close> on one method, none of them internal,
  each given by its function, specifiers and identifier; it stops at the first
  exception.
\<close>

fun modify_all ::
  "'f hooks \<Rightarrow> 'f customizable \<Rightarrow> string \<Rightarrow> ('f \<times> directive \<times> string) list \<Rightarrow>
   error option \<times> 'f customizable" where
  "modify_all H self method_name [] = (None, self)"
| "modify_all H self method_name ((func, specifiers, modif_id) # rest) =
     (case modify_behavior H self method_name func specifiers modif_id False of
        (Some e, self') \<Rightarrow> (Some e, self')
      | (None, self') \<Rightarrow> modify_all H self' method_name rest)"

section \<open>Conditions on hooks, ledgers and directive sequences\<close>

text \<open>The directives that insert a step: \<open>Prepend\<close>, \<open>Append\<close>, \<open>InsertBefore\<close>, \<open>InsertAfter\<close>.\<close>

definition insertion :: "directive \<Rightarrow> bool" where
  "insertion d =
     (case d of
        Prepend \<Rightarrow> True
      | Append \<Rightarrow> True
      | InsertBefore a \<Rightarrow> True
      | InsertAfter a \<Rightarrow> True
      | _ \<Rightarrow> False)"

text \<open>The insertions relative to an anchor.\<close>

definition anchored :: "directive \<Rightarrow> bool" where
  "anchored d = (case d of InsertBefore a \<Rightarrow> True | InsertAfter a \<Rightarrow> True | _ \<Rightarrow> False)"


text \<open>
  A hook that may simplify a modification into a whole replacement: it raises an
  exception of its own or returns the specifiers it was given or the empty specifiers.
\<close>

definition hook_simplifying :: "'f hooks \<Rightarrow> bool" where
  "hook_simplifying H =
     (\<forall>self method_name func specifiers.
        case analyse_function H self method_name func specifiers of
          Inl e \<Rightarrow> e \<noteq> AnchorNotFound
        | Inr r \<Rightarrow> fst r = specifiers \<or> fst r = Replace)"


text \<open>
  A ledger as \<^verbatim>\<open>modify_behavior\<close> leaves it when no step has been removed behind its
  back: every recorded modification is an insertion, and the identifier of every
  anchored insertion is an identifier of the pipeline of the object, where the method is
  a pipeline.
\<close>

definition ledger_replayable :: "'f customizable \<Rightarrow> bool" where
  "ledger_replayable obj =
     (\<forall>(meth_name, modifiers) \<in> set (customs obj).
        case modifiers of
          Whole func \<Rightarrow> True
        | Mods entries \<Rightarrow>
            (\<forall>(custom, func, specifiers) \<in> set entries.
               insertion specifiers \<and>
               (anchored specifiers \<longrightarrow>
                  (\<forall>c. slots obj meth_name = Some (Composed c) \<longrightarrow> custom \<in> set (c_names c)))))"







section \<open>Concrete objects for examples\<close>

text \<open>
  A hook that accepts every function and returns the specifiers as they are, with no
  signatures and no chain text.
\<close>

definition accepting_hooks :: "'f hooks" where
  "accepting_hooks =
     \<lparr> analyse_function = (\<lambda>self method_name func specifiers. Inr (specifiers, None, None)),
       signature = (\<lambda>func. []) \<rparr>"

text \<open>A composer with the given identifiers and steps.\<close>

definition pipeline_of :: "string list \<Rightarrow> 'f list \<Rightarrow> 'f composer" where
  "pipeline_of ns ms =
     \<lparr> c_names = ns, c_methods = ms, c_alias = ''feat'', c_chain_on = None,
       c_signatures = None \<rparr>"

text \<open>
  An object whose only customisable method is \<^verbatim>\<open>get\<close>, with the given ledger and the
  given value of the method.
\<close>

definition feature_with :: "(string \<times> 'f custom) list \<Rightarrow> 'f slot \<Rightarrow> 'f customizable" where
  "feature_with ledger current =
     \<lparr> customs = ledger, old_ids = (\<lambda>m. None),
       slots = (\<lambda>m. if m = ''get'' then Some current else None),
       self_alias = ''feat'' \<rparr>"

text \<open>The identifiers and the steps of a method that is a composer.\<close>

definition pipeline_at :: "'f customizable \<Rightarrow> string \<Rightarrow> (string list \<times> 'f list) option" where
  "pipeline_at self method_name =
     (case slots self method_name of
        Some (Composed c) \<Rightarrow> Some (c_names c, c_methods c)
      | _ \<Rightarrow> None)"

text \<open>The dictionary of modifications recorded for a method.\<close>

definition ledger_at :: "'f customizable \<Rightarrow> string \<Rightarrow> (string \<times> 'f \<times> directive) list option" where
  "ledger_at self method_name =
     (case map_of (customs self) method_name of
        Some (Mods ms) \<Rightarrow> Some ms
      | _ \<Rightarrow> None)"

text \<open>An owner class with a single descriptor.\<close>

definition owner_with ::
  "string \<Rightarrow> 'f customizable \<Rightarrow> (string \<Rightarrow> 'f customizable option)" where
  "owner_with name desc = (\<lambda>d. if d = name then Some desc else None)"

text \<open>
  What is observed of the outcome of a call on an object: the exception raised, and the
  pipeline and the recorded modifications of \<^verbatim>\<open>get\<close> afterwards.
\<close>

definition observe ::
  "error option \<times> 'f customizable \<Rightarrow>
   error option \<times> (string list \<times> 'f list) option \<times> (string \<times> 'f \<times> directive) list option" where
  "observe r = (fst r, pipeline_at (snd r) ''get'', ledger_at (snd r) ''get'')"

text \<open>
  An interpreter that refuses every text handed to it; the examples below stay within
  the plain and the refused texts, for which the interpreter is not asked.
\<close>

definition no_interpreter :: "(unit, 'f) python" where
  "no_interpreter =
     \<lparr> py_exec = (\<lambda>decl. Inl SyntaxError),
       py_construct = (\<lambda>cls func alias chain_on func_id sigs. Inl TypeError) \<rparr>"

text \<open>
  Steps without effect on the owner: \<open>add_one\<close> returns its integer argument plus one
  and raises \<^verbatim>\<open>TypeError\<close> on any other argument, as \<^verbatim>\<open>val + 1\<close> does; \<open>give_five\<close>
  returns five whatever its argument; \<open>give_back\<close> returns its argument.
\<close>

definition add_one :: "unit step" where
  "add_one owner args =
     (case args of [VInt n] \<Rightarrow> (Inr (VInt (n + 1)), owner) | _ \<Rightarrow> (Inl TypeError, owner))"

definition give_five :: "unit step" where
  "give_five owner args = (case args of [v] \<Rightarrow> (Inr (VInt 5), owner) | _ \<Rightarrow> (Inl TypeError, owner))"

definition give_back :: "unit step" where
  "give_back owner args = (case args of [v] \<Rightarrow> (Inr v, owner) | _ \<Rightarrow> (Inl TypeError, owner))"

text \<open>
  The composer built by \<^verbatim>\<open>MethodComposer(obj, f1, 'feat', chain_on, 'f1')\<close> for a
  function \<^verbatim>\<open>f1(self, p)\<close>, with \<open>f2\<close> and \<open>f3\<close> appended under these names, and
  the class it is an instance of. \<open>None\<close> when the construction raises.
\<close>

definition composed ::
  "string \<Rightarrow> string option \<Rightarrow> 'f \<Rightarrow> 'f \<Rightarrow> 'f \<Rightarrow> (unit composer_class \<times> 'f composer) option" where
  "composed p chain_on f1 f2 f3 =
     (case fst (meta_call no_interpreter empty_cache f1 ''get''
                  [Param ''self'' POSITIONAL_OR_KEYWORD, Param p POSITIONAL_OR_KEYWORD]
                  ''feat'' chain_on ''f1'' None) of
        Inl e \<Rightarrow> None
      | Inr ((rank, cls), c) \<Rightarrow>
          Some (cls, snd (append_step (snd (append_step c ''f2'' f2)) ''f3'' f3)))"

text \<open>Calling such a composer with positional arguments, on an owner without state.\<close>

definition call_composed ::
  "(unit composer_class \<times> unit step composer) option \<Rightarrow> val list \<Rightarrow>
   ((error + val) \<times> unit) option" where
  "call_composed r args =
     (case r of
        Some (Generated sh, c) \<Rightarrow> Some (invoke sh c () args)
      | _ \<Rightarrow> None)"

section \<open>Properties of the Python list primitives\<close>

lemma index_of_None: "index_of xs x = None \<longleftrightarrow> x \<notin> set xs"
  by (induction xs) (auto split: option.splits)

lemma index_of_Some: "index_of xs x = Some i \<Longrightarrow> i < length xs \<and> xs ! i = x"
  by (induction xs arbitrary: i) (auto split: option.splits if_splits)

lemma index_of_nth: "distinct xs \<Longrightarrow> i < length xs \<Longrightarrow> index_of xs (xs ! i) = Some i"
proof (induction xs arbitrary: i)
  case Nil then show ?case by simp
next
  case (Cons y ys)
  show ?case
  proof (cases i)
    case 0 then show ?thesis by simp
  next
    case (Suc j)
    with Cons.prems have "j < length ys" "ys ! j \<noteq> y" "distinct ys" by auto
    with Cons.IH[of j] Suc show ?thesis by simp
  qed
qed

section \<open>Properties of the pipeline\<close>

lemma pipeline_inv_iff:
  "pipeline_inv c \<longleftrightarrow> length (c_names c) = length (c_methods c) \<and> distinct (c_names c)"
  by (auto simp: pipeline_inv_def contains_def getitem_def index_of_nth)


lemma distinct_insert_at: "distinct (insert_at i x xs) \<longleftrightarrow> distinct xs \<and> x \<notin> set xs"
proof -
  have s: "set (take i xs) \<union> set (drop i xs) = set xs"
    by (metis append_take_drop_id set_append)
  have "distinct (take i xs @ drop i xs) = distinct xs" by simp
  then have d: "distinct xs \<longleftrightarrow> distinct (take i xs) \<and> distinct (drop i xs) \<and>
      set (take i xs) \<inter> set (drop i xs) = {}"
    by (simp only: distinct_append)
  have "distinct (insert_at i x xs) \<longleftrightarrow> distinct (take i xs) \<and> distinct (drop i xs) \<and>
      x \<notin> set (drop i xs) \<and> x \<notin> set (take i xs) \<and> set (take i xs) \<inter> set (drop i xs) = {}"
    unfolding insert_at_def distinct_append distinct.simps set_simps by blast
  also have "\<dots> \<longleftrightarrow> distinct xs \<and> x \<notin> set xs"
    using s d by blast
  finally show ?thesis .
qed

lemma length_insert_at: "length (insert_at i x xs) = Suc (length xs)"
  by (simp add: insert_at_def)

lemma distinct_delete_at: "distinct xs \<Longrightarrow> distinct (delete_at i xs)"
proof -
  assume d: "distinct xs"
  have "distinct (take i xs @ drop i xs)" using d by simp
  then have a: "distinct (take i xs)" and b: "distinct (drop i xs)"
    and e: "set (take i xs) \<inter> set (drop i xs) = {}"
    by (simp_all only: distinct_append)
  have "set (drop (Suc i) xs) \<subseteq> set (drop i xs)"
    by (rule set_drop_subset_set_drop) simp
  with a e have "set (take i xs) \<inter> set (drop (Suc i) xs) = {}" by blast
  moreover have "distinct (drop (Suc i) xs)" using d by simp
  ultimately show ?thesis using a by (simp add: delete_at_def)
qed

lemma length_delete_at: "i < length xs \<Longrightarrow> length (delete_at i xs) = length xs - 1"
  by (simp add: delete_at_def)


lemma pipeline_inv_init: "pipeline_inv (composer_init f al ch fid sg)"
  by (simp add: pipeline_inv_iff composer_init_def)

lemma pipeline_inv_prepend: "pipeline_inv c \<Longrightarrow> pipeline_inv (snd (prepend c n m))"
  by (auto simp: pipeline_inv_iff prepend_def check_duplicates_def
      distinct_insert_at length_insert_at)

lemma pipeline_inv_append: "pipeline_inv c \<Longrightarrow> pipeline_inv (snd (append_step c n m))"
  by (auto simp: pipeline_inv_iff append_step_def check_duplicates_def)

lemma pipeline_inv_add_after: "pipeline_inv c \<Longrightarrow> pipeline_inv (snd (add_after c a n m))"
  by (auto simp: pipeline_inv_iff add_after_def check_duplicates_def
      distinct_insert_at length_insert_at split: option.splits)

lemma pipeline_inv_add_before: "pipeline_inv c \<Longrightarrow> pipeline_inv (snd (add_before c a n m))"
  by (auto simp: pipeline_inv_iff add_before_def check_duplicates_def
      distinct_insert_at length_insert_at split: option.splits)

lemma pipeline_inv_replace: "pipeline_inv c \<Longrightarrow> pipeline_inv (snd (replace c n m))"
  by (auto simp: pipeline_inv_iff replace_def split: option.splits)

lemma pipeline_inv_remove: "pipeline_inv c \<Longrightarrow> pipeline_inv (snd (remove c n))"
  by (auto simp: pipeline_inv_iff remove_def Let_def distinct_delete_at length_delete_at
      dest: index_of_Some split: option.splits)

lemma pipeline_inv_reset: "pipeline_inv (reset c)"
  by (simp add: pipeline_inv_iff reset_def)

lemma pipeline_inv_clone: "pipeline_inv c \<Longrightarrow> pipeline_inv (clone c s sg)"
  by (simp add: pipeline_inv_iff clone_def Let_def)

text \<open>
  Claim C10. The constructor yields a pipeline satisfying the invariant (as many steps
  as identifiers, identifiers pairwise distinct, the step looked up under the
  identifier at a position is the step executed at that position), and every operation
  of \<^verbatim>\<open>MethodComposer\<close> (prepend, append, add_before, add_after, replace, remove,
  reset, clone) started on a pipeline satisfying it leaves a pipeline satisfying it,
  whether the operation succeeds or raises.
\<close>

theorem pipeline_invariant_maintained:
  "pipeline_inv (composer_init func alias_name chain_on func_id signatures) \<and>
   (pipeline_inv c \<longrightarrow>
      pipeline_inv (snd (prepend c name meth)) \<and>
      pipeline_inv (snd (append_step c name meth)) \<and>
      pipeline_inv (snd (add_before c anchor name meth)) \<and>
      pipeline_inv (snd (add_after c anchor name meth)) \<and>
      pipeline_inv (snd (replace c name meth)) \<and>
      pipeline_inv (snd (remove c name)) \<and>
      pipeline_inv (reset c) \<and>
      pipeline_inv (clone c as_step sigs))"
proof (intro conjI impI)
  show "pipeline_inv (composer_init func alias_name chain_on func_id signatures)"
    by (rule pipeline_inv_init)
next
  assume inv: "pipeline_inv c"
  show "pipeline_inv (snd (prepend c name meth))" by (rule pipeline_inv_prepend [OF inv])
  show "pipeline_inv (snd (append_step c name meth))" by (rule pipeline_inv_append [OF inv])
  show "pipeline_inv (snd (add_before c anchor name meth))"
    by (rule pipeline_inv_add_before [OF inv])
  show "pipeline_inv (snd (add_after c anchor name meth))"
    by (rule pipeline_inv_add_after [OF inv])
  show "pipeline_inv (snd (replace c name meth))" by (rule pipeline_inv_replace [OF inv])
  show "pipeline_inv (snd (remove c name))" by (rule pipeline_inv_remove [OF inv])
  show "pipeline_inv (reset c)" by (rule pipeline_inv_reset)
  show "pipeline_inv (clone c as_step sigs)" by (rule pipeline_inv_clone [OF inv])
qed

theorem pipeline_invariant_maintained_witness:
  "pipeline_inv (composer_init (0::nat) ''feat'' None ''old'' None) \<and>
   pipeline_inv (snd (prepend (composer_init (0::nat) ''feat'' None ''old'' None) ''pre'' 1)) \<and>
   c_names (snd (prepend (composer_init (0::nat) ''feat'' None ''old'' None) ''pre'' 1))
     = [''pre'', ''old''] \<and>
   getitem (snd (prepend (composer_init (0::nat) ''feat'' None ''old'' None) ''pre'' 1)) ''pre''
     = Inr 1"
proof -
  let ?c = "composer_init (0::nat) ''feat'' None ''old'' None"
  note T = pipeline_invariant_maintained
    [where func = "0::nat" and alias_name = "''feat''" and chain_on = None
       and func_id = "''old''" and signatures = None and c = ?c
       and name = "''pre''" and meth = "1::nat"]
  from T have a: "pipeline_inv ?c" by (rule conjunct1)
  from T a have b: "pipeline_inv (snd (prepend ?c ''pre'' 1))" by blast
  have c: "c_names (snd (prepend ?c ''pre'' 1)) = [''pre'', ''old'']"
    by (simp add: composer_init_def prepend_def check_duplicates_def insert_at_def)
  have d: "getitem (snd (prepend ?c ''pre'' 1)) ''pre'' = Inr 1"
    by (simp add: composer_init_def prepend_def check_duplicates_def insert_at_def getitem_def)
  from a b c d show ?thesis by simp
qed

text \<open>
  Claim C4. Inserting a step under an identifier that is already present fails with
  \<open>DuplicateIdentifier\<close> for each of the four insertion operations, whatever the anchor,
  and the pipeline after the failed call is the pipeline before it.
\<close>

theorem duplicate_insertion_fails_atomically:
  "name \<in> set (c_names c) \<Longrightarrow>
     prepend c name meth = (Some DuplicateIdentifier, c) \<and>
     append_step c name meth = (Some DuplicateIdentifier, c) \<and>
     add_before c anchor name meth = (Some DuplicateIdentifier, c) \<and>
     add_after c anchor name meth = (Some DuplicateIdentifier, c)"
  by (simp add: prepend_def append_step_def add_before_def add_after_def
      check_duplicates_def)

theorem duplicate_insertion_fails_atomically_witness:
  "''old'' \<in> set (c_names (composer_init (0::nat) ''feat'' None ''old'' None)) \<and>
   prepend (composer_init (0::nat) ''feat'' None ''old'' None) ''old'' 1
     = (Some DuplicateIdentifier, composer_init 0 ''feat'' None ''old'' None) \<and>
   add_after (composer_init (0::nat) ''feat'' None ''old'' None) ''missing'' ''old'' 1
     = (Some DuplicateIdentifier, composer_init 0 ''feat'' None ''old'' None)"
  using duplicate_insertion_fails_atomically
    [where name = "''old''" and c = "composer_init (0::nat) ''feat'' None ''old'' None"
       and meth = "1::nat" and anchor = "''missing''"]
  by (simp add: composer_init_def)

section \<open>The class cache\<close>










section \<open>Invocation\<close>

lemma map_of_zip_update:
  "index_of ps t = Some i \<Longrightarrow> length args = length ps \<Longrightarrow>
     map_of ((t, r) # zip ps args) = map_of (zip ps (args[i := r]))"
proof (induction ps arbitrary: args i)
  case Nil then show ?case by simp
next
  case (Cons p ps)
  then obtain a as where args: "args = a # as" by (cases args) auto
  show ?case
  proof (cases "p = t")
    case True
    with Cons.prems args show ?thesis by (auto simp: fun_eq_iff)
  next
    case False
    with Cons.prems obtain j where j: "index_of ps t = Some j" "i = Suc j"
      by (auto split: option.splits)
    have len: "length as = length ps" using Cons.prems args by simp
    have IH: "map_of ((t, r) # zip ps as) = map_of (zip ps (as[j := r]))"
      by (rule Cons.IH [OF j(1) len])
    have "map_of ((t, r) # zip (p # ps) args) = (map_of ((t, r) # zip ps as))(p \<mapsto> a)"
      using False args by (auto simp: fun_eq_iff)
    also have "\<dots> = map_of (zip (p # ps) (args[i := r]))"
      using args j IH by simp
    finally show ?thesis .
  qed
qed

lemma map_of_zip_index:
  "index_of ps t = Some i \<Longrightarrow> length args = length ps \<Longrightarrow> map_of (zip ps args) t = Some (args ! i)"
proof (induction ps arbitrary: args i)
  case Nil then show ?case by simp
next
  case (Cons p ps)
  then obtain a as where args: "args = a # as" by (cases args) auto
  with Cons show ?case by (auto split: option.splits if_splits)
qed

lemma index_of_member: "index_of ps t = Some i \<Longrightarrow> t \<in> set ps"
  by (induction ps arbitrary: i) (auto split: if_splits option.splits)

lemma read_locals_agree:
  "(\<And>p. p \<in> set ps \<Longrightarrow> map_of env p = map_of env' p) \<Longrightarrow> read_locals env ps = read_locals env' ps"
  by (induction ps) (simp_all cong: option.case_cong)

lemma read_locals_zip:
  assumes d: "distinct ps" and l: "length args = length ps"
    and e: "\<And>p. p \<in> set ps \<Longrightarrow> map_of env p = map_of (zip ps args) p"
  shows "read_locals env ps = Some args"
proof -
  have "\<And>bs. length bs = length qs \<Longrightarrow> (\<forall>k < length qs. map_of env (qs ! k) = Some (bs ! k)) \<Longrightarrow>
          read_locals env qs = Some bs" for qs :: "string list"
  proof (induction qs)
    case Nil then show ?case by simp
  next
    case (Cons q qs)
    then obtain b bs' where bs: "bs = b # bs'" by (cases bs) auto
    from Cons.prems(2) bs have h: "map_of env q = Some b" by auto
    from Cons.prems(2) bs have "\<forall>k < length qs. map_of env (qs ! k) = Some (bs' ! k)" by auto
    with Cons.IH [of bs'] Cons.prems(1) bs have "read_locals env qs = Some bs'" by simp
    with h bs show ?case by simp
  qed
  moreover have "\<forall>k < length ps. map_of env (ps ! k) = Some (args ! k)"
    using d l e by (simp add: map_of_zip_nth)
  ultimately show ?thesis using l by blast
qed

text \<open>
  Two sets of locals that differ in the loop variable only: as long as \<^verbatim>\<open>m\<close> is
  neither a parameter nor a target, the loop and the \<^verbatim>\<open>return\<close> do not tell them
  apart, and the position at which the loop starts does not matter.
\<close>

lemma assign_off_m:
  assumes "(map_of env)(''m'' := None) = (map_of env')(''m'' := None)"
  shows "map_sum id (\<lambda>e. (map_of e)(''m'' := None)) (assign ts r env)
       = map_sum id (\<lambda>e. (map_of e)(''m'' := None)) (assign ts r env')"
proof -
  have eq: "map_of env x = map_of env' x" if "x \<noteq> ''m''" for x
    using assms that by (metis fun_upd_other)
  have one: "(map_of ((t, r) # env))(''m'' := None) = (map_of ((t, r) # env'))(''m'' := None)" for t
    using eq by (auto simp: fun_eq_iff)
  have many: "(map_of (xs @ env))(''m'' := None) = (map_of (xs @ env'))(''m'' := None)"
    for xs :: "(string \<times> val) list"
    using eq by (auto simp: fun_eq_iff map_add_def split: option.splits)
  show ?thesis
    using assms one many by (simp add: assign_def split: list.splits val.splits)
qed

lemma run_steps_off_m:
  assumes m: "''m'' \<notin> set ps"
  shows "(map_of env)(''m'' := None) = (map_of env')(''m'' := None) \<Longrightarrow>
     map_prod (map_sum id (\<lambda>e. (map_of e)(''m'' := None))) id (run_steps ts ps ms k env s)
       = map_prod (map_sum id (\<lambda>e. (map_of e)(''m'' := None))) id (run_steps ts ps ms k' env' s)"
proof (induction ms arbitrary: env env' s k k')
  case Nil then show ?case by simp
next
  case (Cons step ms)
  let ?e = "(''m'', VStep k) # env" and ?e' = "(''m'', VStep k') # env'"
  have eq: "map_of env x = map_of env' x" if "x \<noteq> ''m''" for x
    using Cons.prems that by (metis fun_upd_other)
  have off: "(map_of ?e)(''m'' := None) = (map_of ?e')(''m'' := None)"
    using eq by (auto simp: fun_eq_iff)
  have rl: "read_locals ?e ps = read_locals ?e' ps"
    by (rule read_locals_agree) (use m eq in auto)
  show ?case
  proof (cases "read_locals ?e' ps")
    case None with rl show ?thesis by simp
  next
    case (Some args)
    obtain res s' where st: "step s args = (res, s')" by (cases "step s args")
    show ?thesis
    proof (cases res)
      case (Inl e)
      with Some rl st show ?thesis by simp
    next
      case (Inr r)
      note a = assign_off_m [OF off, of ts r]
      show ?thesis
      proof (cases "assign ts r ?e")
        case (Inl e)
        with a have "assign ts r ?e' = Inl e" by (cases "assign ts r ?e'") auto
        with Inl Inr Some rl st show ?thesis by simp
      next
        case (Inr e1)
        with a obtain e2 where e2: "assign ts r ?e' = Inr e2"
            "(map_of e1)(''m'' := None) = (map_of e2)(''m'' := None)"
          by (cases "assign ts r ?e'") auto
        from Cons.IH [OF e2(2), where s = s' and k = "Suc k" and k' = "Suc k'"] Inr e2 \<open>res = Inr r\<close> Some rl st
        show ?thesis by simp
      qed
    qed
  qed
qed

lemma return_value_off_m:
  assumes "''m'' \<notin> set ts" and "(map_of env)(''m'' := None) = (map_of env')(''m'' := None)"
  shows "return_value ts env = return_value ts env'"
proof -
  have eq: "map_of env x = map_of env' x" if "x \<noteq> ''m''" for x
    using assms(2) that by (metis fun_upd_other)
  have rl: "read_locals env ts = read_locals env' ts"
  proof (rule read_locals_agree)
    fix p assume "p \<in> set ts"
    with assms(1) have "p \<noteq> ''m''" by blast
    then show "map_of env p = map_of env' p" by (rule eq)
  qed
  have hd: "map_of env t = map_of env' t" if "ts = [t]" for t
    using eq [of t] assms(1) that by auto
  show ?thesis
    using rl hd by (auto simp: return_value_def split: list.splits)
qed

lemma finish_off_m:
  assumes "''m'' \<notin> set ts"
    and "map_prod (map_sum id (\<lambda>e. (map_of e)(''m'' := None))) id r
       = map_prod (map_sum id (\<lambda>e. (map_of e)(''m'' := None))) id r'"
  shows "finish ts r = finish ts r'"
proof -
  obtain a s where r: "r = (a, s)" by (cases r)
  obtain a' s' where r': "r' = (a', s')" by (cases r')
  from assms(2) r r' have s: "s = s'"
    and a: "map_sum id (\<lambda>e. (map_of e)(''m'' := None)) a
          = map_sum id (\<lambda>e. (map_of e)(''m'' := None)) a'"
    by auto
  show ?thesis
  proof (cases a)
    case (Inl e)
    with a have "a' = Inl e" by (cases a') auto
    with Inl r r' s show ?thesis by (simp add: finish_def)
  next
    case (Inr env)
    with a obtain env' where "a' = Inr env'"
        "(map_of env)(''m'' := None) = (map_of env')(''m'' := None)"
      by (cases a') auto
    with Inr r r' s return_value_off_m [OF assms(1), of env env'] show ?thesis
      by (simp add: finish_def)
  qed
qed

text \<open>
  One step of a call, for a class whose parameters are distinct and none of which is
  \<^verbatim>\<open>m\<close>: the first step is called with the arguments of the call; when it raises,
  the call raises; otherwise the call goes on with the other steps, on the locals
  \<open>env\<close> left by the assignment.
\<close>

lemma invoke_step:
  assumes d: "distinct (sh_params sh)" and m: "''m'' \<notin> set (sh_params sh)"
    and mt: "''m'' \<notin> set (sh_targets sh)"
    and l: "length args = length (sh_params sh)"
    and st: "step owner args = (Inr r, s')"
    and asg: "assign (sh_targets sh) r (zip (sh_params sh) args) = Inr env"
    and nx: "(map_of env)(''m'' := None) = (map_of (zip (sh_params sh) args'))(''m'' := None)"
    and l': "length args' = length (sh_params sh)"
  shows "invoke sh (c\<lparr>c_methods := step # ms\<rparr>) owner args
       = invoke sh (c\<lparr>c_methods := ms\<rparr>) s' args'"
proof -
  let ?ps = "sh_params sh" and ?ts = "sh_targets sh"
  let ?e0 = "zip ?ps args" and ?e1 = "(''m'', VStep 0) # zip ?ps args"
  have rl: "read_locals ?e1 ?ps = Some args"
    by (rule read_locals_zip [OF d l]) (use m in auto)
  have off: "(map_of ?e1)(''m'' := None) = (map_of ?e0)(''m'' := None)"
    by (auto simp: fun_eq_iff)
  from assign_off_m [OF off, of ?ts r] asg obtain env1 where
    e1: "assign ?ts r ?e1 = Inr env1" "(map_of env1)(''m'' := None) = (map_of env)(''m'' := None)"
    by (cases "assign ?ts r ?e1") auto
  have "run_steps ?ts ?ps (step # ms) 0 ?e0 owner = run_steps ?ts ?ps ms (Suc 0) env1 s'"
    using rl st e1 by simp
  moreover have "map_prod (map_sum id (\<lambda>e. (map_of e)(''m'' := None))) id
          (run_steps ?ts ?ps ms (Suc 0) env1 s')
       = map_prod (map_sum id (\<lambda>e. (map_of e)(''m'' := None))) id
          (run_steps ?ts ?ps ms 0 (zip ?ps args') s')"
    by (rule run_steps_off_m [OF m]) (use e1 nx in simp)
  ultimately have "finish ?ts (run_steps ?ts ?ps (step # ms) 0 ?e0 owner)
      = finish ?ts (run_steps ?ts ?ps ms 0 (zip ?ps args') s')"
    using finish_off_m [OF mt] by metis
  with l l' show ?thesis by (simp add: invoke_def)
qed

lemma invoke_raise:
  assumes d: "distinct (sh_params sh)" and m: "''m'' \<notin> set (sh_params sh)"
    and l: "length args = length (sh_params sh)"
    and st: "step owner args = (Inl e, s')"
  shows "invoke sh (c\<lparr>c_methods := step # ms\<rparr>) owner args = (Inl e, s')"
proof -
  have rl: "read_locals ((''m'', VStep 0) # zip (sh_params sh) args) (sh_params sh) = Some args"
    by (rule read_locals_zip [OF d l]) (use m in auto)
  with l st show ?thesis by (simp add: invoke_def finish_def)
qed

text \<open>What a generated class is made of.\<close>

lemma split_commas_plain: "CHR '','' \<notin> set s \<Longrightarrow> split_commas s = [s]"
  by (induction s) auto

lemma strip_plain: "CHR '' '' \<notin> set s \<Longrightarrow> strip s = s"
proof -
  assume h: "CHR '' '' \<notin> set s"
  have dw: "dropWhile (\<lambda>c. c = CHR '' '') xs = xs" if "CHR '' '' \<notin> set xs" for xs :: string
    using that by (cases xs) auto
  from h show ?thesis by (simp add: strip_def dw)
qed

lemma identifier_chars:
  assumes "is_identifier s"
  shows "s \<noteq> [] \<and> CHR '','' \<notin> set s \<and> CHR '' '' \<notin> set s"
proof -
  have a: "\<not> letter (CHR '','')" "\<not> letter (CHR '' '')" "\<not> digit (CHR '','')" "\<not> digit (CHR '' '')"
    by (simp_all add: letter_def digit_def)
  from assms obtain c cs where s: "s = c # cs" "letter c" "list_all (\<lambda>d. letter d \<or> digit d) cs"
    by (auto simp: is_identifier_def split: list.splits)
  from s(3) a have "CHR '','' \<notin> set cs" "CHR '' '' \<notin> set cs"
    by (auto simp: list_all_iff)
  with s a show ?thesis by auto
qed

lemma chain_targets_variable: "variable t \<Longrightarrow> chain_targets t = [t]"
  using identifier_chars [of t]
  by (simp add: variable_def chain_targets_def split_commas_plain strip_plain)

lemma create_composer_generated:
  assumes "create_composer py name sigs chain_on = Inr (Generated sh)"
  shows "sigs \<noteq> [] \<and> sh_params sh = tl (hd sigs) \<and> distinct (sh_params sh) \<and>
         list_all variable (sh_params sh) \<and>
         sh_targets sh = chain_targets (case chain_on of None \<Rightarrow> [] | Some ch \<Rightarrow> ch)"
proof (cases sigs)
  case Nil
  with assms show ?thesis by (simp add: create_composer_def)
next
  case (Cons s rest)
  let ?chain = "case chain_on of None \<Rightarrow> [] | Some ch \<Rightarrow> ch"
  show ?thesis
  proof (cases "plain (name @ ''Composer'') (tl s) ?chain")
    case True
    with assms Cons have "sh = \<lparr> sh_name = name @ ''Composer'', sh_params = tl s,
        sh_targets = chain_targets ?chain \<rparr>"
      by (simp add: create_composer_def Let_def)
    with True Cons show ?thesis by (simp add: plain_def)
  next
    case False
    with assms Cons show ?thesis
      by (simp add: create_composer_def Let_def split: if_splits sum.splits option.splits)
  qed
qed

text \<open>
  A parameter that is not called \<^verbatim>\<open>m\<close> is threaded. Let the class of the pipeline
  \<open>c\<close> be generated for its chain text \<open>t\<close>, let \<open>t\<close> be the parameter at position
  \<open>i\<close>, and let no parameter be called \<^verbatim>\<open>m\<close>. A call on no step returns the
  argument passed for \<open>t\<close>. A call on the steps \<open>step # ms\<close> raises what \<open>step\<close>
  raises, and otherwise is the call on \<open>ms\<close> with the argument at \<open>i\<close> replaced by
  the value that \<open>step\<close> returned, on the owner as \<open>step\<close> left it.
\<close>

lemma chain_parameter_threaded:
  assumes cls: "create_composer py name sigs (c_chain_on c) = Inr (Generated sh)"
    and ch: "c_chain_on c = Some t"
    and i: "index_of (sh_params sh) t = Some i"
    and m: "''m'' \<notin> set (sh_params sh)"
    and l: "length args = length (sh_params sh)"
  shows "invoke sh (c\<lparr>c_methods := []\<rparr>) owner args = (Inr (args ! i), owner)"
    and "invoke sh (c\<lparr>c_methods := step # ms\<rparr>) owner args =
           (case step owner args of
              (Inl e, s') \<Rightarrow> (Inl e, s')
            | (Inr r, s') \<Rightarrow> invoke sh (c\<lparr>c_methods := ms\<rparr>) s' (args[i := r]))"
proof -
  note g = create_composer_generated [OF cls]
  from g have d: "distinct (sh_params sh)" by blast
  from g have vars: "list_all variable (sh_params sh)" by blast
  from g have tg: "sh_targets sh = chain_targets (case c_chain_on c of None \<Rightarrow> [] | Some ch \<Rightarrow> ch)"
    by blast
  from i have tin: "t \<in> set (sh_params sh)" by (rule index_of_member)
  with vars have "variable t" by (simp add: list_all_iff)
  with tg ch have ts: "sh_targets sh = [t]" by (simp add: chain_targets_variable)
  from tin m have tm: "t \<noteq> ''m''" by auto
  with ts have mt: "''m'' \<notin> set (sh_targets sh)" by simp
  show "invoke sh (c\<lparr>c_methods := []\<rparr>) owner args = (Inr (args ! i), owner)"
    using l ts map_of_zip_index [OF i l] by (simp add: invoke_def finish_def return_value_def)
  obtain res s' where st: "step owner args = (res, s')" by (cases "step owner args")
  show "invoke sh (c\<lparr>c_methods := step # ms\<rparr>) owner args =
           (case step owner args of
              (Inl e, s') \<Rightarrow> (Inl e, s')
            | (Inr r, s') \<Rightarrow> invoke sh (c\<lparr>c_methods := ms\<rparr>) s' (args[i := r]))"
  proof (cases res)
    case (Inl e)
    with st have r: "step owner args = (Inl e, s')" by simp
    have "invoke sh (c\<lparr>c_methods := step # ms\<rparr>) owner args = (Inl e, s')"
      using r by (rule invoke_raise [OF d m l])
    with r show ?thesis by simp
  next
    case (Inr r)
    have asg: "assign (sh_targets sh) r (zip (sh_params sh) args)
        = Inr ((t, r) # zip (sh_params sh) args)"
      by (simp add: ts assign_def)
    have nx: "(map_of ((t, r) # zip (sh_params sh) args))(''m'' := None)
        = (map_of (zip (sh_params sh) (args[i := r])))(''m'' := None)"
      using map_of_zip_update [OF i l, of r] by simp
    have "invoke sh (c\<lparr>c_methods := step # ms\<rparr>) owner args
        = invoke sh (c\<lparr>c_methods := ms\<rparr>) s' (args[i := r])"
      by (rule invoke_step [OF d m mt l _ asg nx]) (use st Inr l in simp_all)
    with st Inr show ?thesis by simp
  qed
qed

text \<open>
  Without a chain text, and with no parameter called \<^verbatim>\<open>m\<close>, every step is called
  with the arguments of the call, in the order of the pipeline, until one raises; a
  call in which no step raises returns \<^verbatim>\<open>None\<close>, whatever the steps returned.
\<close>

lemma unchained_returns_none:
  assumes cls: "create_composer py name sigs (c_chain_on c) = Inr (Generated sh)"
    and ch: "c_chain_on c = None"
    and m: "''m'' \<notin> set (sh_params sh)"
    and l: "length args = length (sh_params sh)"
  shows "invoke sh (c\<lparr>c_methods := []\<rparr>) owner args = (Inr VNone, owner)"
    and "invoke sh (c\<lparr>c_methods := step # ms\<rparr>) owner args =
           (case step owner args of
              (Inl e, s') \<Rightarrow> (Inl e, s')
            | (Inr r, s') \<Rightarrow> invoke sh (c\<lparr>c_methods := ms\<rparr>) s' args)"
proof -
  note g = create_composer_generated [OF cls]
  from g have d: "distinct (sh_params sh)" by blast
  from g have tg: "sh_targets sh = chain_targets (case c_chain_on c of None \<Rightarrow> [] | Some ch \<Rightarrow> ch)"
    by blast
  with ch have ts: "sh_targets sh = []" by (simp add: chain_targets_def)
  show "invoke sh (c\<lparr>c_methods := []\<rparr>) owner args = (Inr VNone, owner)"
    using l ts by (simp add: invoke_def finish_def return_value_def)
  obtain res s' where st: "step owner args = (res, s')" by (cases "step owner args")
  show "invoke sh (c\<lparr>c_methods := step # ms\<rparr>) owner args =
           (case step owner args of
              (Inl e, s') \<Rightarrow> (Inl e, s')
            | (Inr r, s') \<Rightarrow> invoke sh (c\<lparr>c_methods := ms\<rparr>) s' args)"
  proof (cases res)
    case (Inl e)
    with st have r: "step owner args = (Inl e, s')" by simp
    have "invoke sh (c\<lparr>c_methods := step # ms\<rparr>) owner args = (Inl e, s')"
      using r by (rule invoke_raise [OF d m l])
    with r show ?thesis by simp
  next
    case (Inr r)
    have asg: "assign (sh_targets sh) r (zip (sh_params sh) args) = Inr (zip (sh_params sh) args)"
      by (simp add: ts assign_def)
    have "invoke sh (c\<lparr>c_methods := step # ms\<rparr>) owner args
        = invoke sh (c\<lparr>c_methods := ms\<rparr>) s' args"
      by (rule invoke_step [OF d m _ l _ asg _ l]) (use st Inr ts in simp_all)
    with st Inr show ?thesis by simp
  qed
qed

text \<open>
  Claim C5. The loop variable of the generated method is called \<^verbatim>\<open>m\<close>, whatever the
  parameters are called. For a function \<^verbatim>\<open>f1(self, m)\<close> chained on \<^verbatim>\<open>m\<close> the class
  is generated, with the loop \<^verbatim>\<open>for m in self._methods: m = m(self.__self__, m)\<close>:
  every step is called with itself in the place of the argument. With three steps
  adding one, the call on zero raises the \<^verbatim>\<open>TypeError\<close> of the first step instead
  of returning three; with a step giving five followed by two steps giving back
  their argument, it returns the last function object instead of five; without a
  chain text the steps adding one raise as well and are not run in order. The same
  pipelines with the parameter called \<^verbatim>\<open>val\<close> return three, five and \<^verbatim>\<open>None\<close>.
\<close>

theorem generated_call_rebinds_parameter_m:
  "map_option fst (composed ''m'' (Some ''m'') add_one add_one add_one)
     = Some (Generated \<lparr> sh_name = ''getComposer'', sh_params = [''m''],
                          sh_targets = [''m''] \<rparr>) \<and>
   map_option (\<lambda>r. (c_names (snd r), c_chain_on (snd r), c_signatures (snd r)))
       (composed ''m'' (Some ''m'') add_one add_one add_one)
     = Some ([''f1'', ''f2'', ''f3''], Some ''m'', Some [[''feat'', ''m'']]) \<and>
   call_composed (composed ''m'' (Some ''m'') add_one add_one add_one) [VInt 0]
     = Some (Inl TypeError, ()) \<and>
   call_composed (composed ''m'' (Some ''m'') give_five give_back give_back) [VInt 0]
     = Some (Inr (VStep 2), ()) \<and>
   call_composed (composed ''m'' None add_one add_one add_one) [VInt 0]
     = Some (Inl TypeError, ()) \<and>
   call_composed (composed ''val'' (Some ''val'') add_one add_one add_one) [VInt 0]
     = Some (Inr (VInt 3), ()) \<and>
   call_composed (composed ''val'' (Some ''val'') give_five give_back give_back) [VInt 0]
     = Some (Inr (VInt 5), ()) \<and>
   call_composed (composed ''val'' None add_one add_one add_one) [VInt 0]
     = Some (Inr VNone, ())"
  by code_simp


section \<open>The customize declaration: the test for a missing function\<close>

text \<open>
  Claim C7. In the source the test that raises \<open>MissingFunction\<close> is
  \<^verbatim>\<open>not self.func and (not spec or spec[0] == 'remove')\<close>: an undecorated declaration
  of a removal raises \<open>MissingFunction\<close> on every owner and with every hook, while an
  undecorated declaration of a \<open>Prepend\<close> does not raise and is handed on to
  \<^verbatim>\<open>modify_behavior\<close> with \<^verbatim>\<open>None\<close> as its function.
\<close>

theorem customize_function_check_inverted:
  "customize H (customize_init dn mn (Remove a) mid) owner = (Some MissingFunction, owner) \<and>
   fst (customize accepting_hooks (customize_init ''feat'' ''get'' Prepend ''custom'')
          (owner_with ''feat''
             (feature_with [] (Composed (pipeline_of [''old''] [Some (0::nat)])))))
     = None"
proof (intro conjI)
  show "customize H (customize_init dn mn (Remove a) mid) owner = (Some MissingFunction, owner)"
    by (simp add: customize_def customize_init_def is_remove_def)
  show "fst (customize accepting_hooks (customize_init ''feat'' ''get'' Prepend ''custom'')
          (owner_with ''feat''
             (feature_with [] (Composed (pipeline_of [''old''] [Some (0::nat)])))))
     = None"
    by code_simp
qed

section \<open>Replay: evaluation at concrete objects\<close>

text \<open>
  Claim C1. In the source both branches of the assignment of \<^verbatim>\<open>shift\<close> are \<open>-1\<close>.
  Replaying an \<open>InsertBefore y\<close> recorded for \<open>w\<close> in the source pipeline
  \<open>x, w, y, z\<close> onto the target pipeline \<open>x, z\<close> searches backward, anchors on \<open>x\<close>
  and gives \<open>w, x, z\<close>; with the source pipeline \<open>w, y\<close> and the target pipeline \<open>q\<close>
  the search finds nothing and the step is prepended, giving \<open>w, q\<close>.
\<close>

theorem replay_add_before_scans_backward:
  "observe (copy_custom_behaviors accepting_hooks
      (feature_with [] (Composed (pipeline_of [''x'', ''z''] [1, 3::nat])))
      (feature_with [(''get'', Mods [(''w'', 9, InsertBefore ''y'')])]
         (Composed (pipeline_of [''x'', ''w'', ''y'', ''z''] [1, 9, 2, 3]))))
     = (None, Some ([''w'', ''x'', ''z''], [9, 1, 3]), Some [(''w'', 9, InsertBefore ''x'')]) \<and>
   observe (copy_custom_behaviors accepting_hooks
      (feature_with [] (Composed (pipeline_of [''q''] [1::nat])))
      (feature_with [(''get'', Mods [(''w'', 9, InsertBefore ''y'')])]
         (Composed (pipeline_of [''w'', ''y''] [9, 2]))))
     = (None, Some ([''w'', ''q''], [9, 1]), Some [(''w'', 9, Prepend)])"
  by code_simp

text \<open>
  The search loop is entered only when the recorded step is neither the first nor the
  last of the source's pipeline. An \<open>InsertAfter y\<close> recorded for \<open>w\<close>, the last step
  of the source pipeline \<open>x, y, w\<close>, is prepended to the target pipeline \<open>x\<close>,
  although \<open>x\<close> stands before \<open>y\<close> in the source.
\<close>

lemma search_skipped_for_last_step:
  "observe (copy_custom_behaviors accepting_hooks
      (feature_with [] (Composed (pipeline_of [''x''] [1::nat])))
      (feature_with [(''get'', Mods [(''w'', 9, InsertAfter ''y'')])]
         (Composed (pipeline_of [''x'', ''y'', ''w''] [1, 2, 9]))))
     = (None, Some ([''w'', ''x''], [9, 1]), Some [(''w'', 9, Prepend)])"
  by code_simp

section \<open>Signature normalisation: tokens\<close>

text \<open>
  Claim C8, as stated, fails: with the alias \<open>feat\<close>, a first parameter named
  \<open>driver\<close> keeps its name and a second parameter named \<open>self\<close> becomes the alias.
\<close>

theorem normalize_first_parameter_counterexample:
  "normalize_signature
     [Param ''driver'' POSITIONAL_OR_KEYWORD, Param ''self'' POSITIONAL_OR_KEYWORD]
     (Some ''feat'') = [''driver'', ''feat''] \<and>
   hd (normalize_signature
     [Param ''driver'' POSITIONAL_OR_KEYWORD, Param ''self'' POSITIONAL_OR_KEYWORD]
     (Some ''feat'')) \<noteq> ''feat''"
  by code_simp

text \<open>
  Claim C8, amended. Normalisation yields one token per parameter. A parameter named
  \<open>self\<close>, at any position and of any kind, becomes the alias when the alias is given
  and not empty; every other parameter, and every parameter when no alias is given,
  becomes its name, with one leading star when variadic positional and two when variadic
  keyword.
\<close>

theorem normalize_signature_tokens:
  "length (normalize_signature sig al) = length sig \<and>
   (\<forall>i < length sig.
      (\<forall>a. al = Some a \<and> a \<noteq> [] \<and> p_name (sig ! i) = ''self'' \<longrightarrow>
           normalize_signature sig al ! i = a) \<and>
      (al = None \<or> al = Some [] \<or> p_name (sig ! i) \<noteq> ''self'' \<longrightarrow>
           normalize_signature sig al ! i =
             (if p_kind (sig ! i) = VAR_POSITIONAL then CHR ''*'' # p_name (sig ! i)
              else if p_kind (sig ! i) = VAR_KEYWORD then CHR ''*'' # CHR ''*'' # p_name (sig ! i)
              else p_name (sig ! i))))"
  by (auto simp: normalize_signature_def norm_arg_def Let_def split: option.splits)

theorem normalize_signature_tokens_witness:
  "normalize_signature
     [Param ''self'' POSITIONAL_OR_KEYWORD, Param ''args'' VAR_POSITIONAL,
      Param ''kwargs'' VAR_KEYWORD] (Some ''feat'') ! 0 = ''feat'' \<and>
   normalize_signature
     [Param ''self'' POSITIONAL_OR_KEYWORD, Param ''args'' VAR_POSITIONAL,
      Param ''kwargs'' VAR_KEYWORD] (Some ''feat'') ! 2 = ''**kwargs''"
proof -
  note T = normalize_signature_tokens
    [where sig = "[Param ''self'' POSITIONAL_OR_KEYWORD, Param ''args'' VAR_POSITIONAL,
      Param ''kwargs'' VAR_KEYWORD]" and al = "Some ''feat''"]
  from T have "\<forall>i < 3. (\<forall>a. Some ''feat'' = Some a \<and> a \<noteq> [] \<and>
        p_name ([Param ''self'' POSITIONAL_OR_KEYWORD, Param ''args'' VAR_POSITIONAL,
          Param ''kwargs'' VAR_KEYWORD] ! i) = ''self'' \<longrightarrow>
        normalize_signature [Param ''self'' POSITIONAL_OR_KEYWORD, Param ''args'' VAR_POSITIONAL,
          Param ''kwargs'' VAR_KEYWORD] (Some ''feat'') ! i = a)"
    by simp
  then have a: "normalize_signature [Param ''self'' POSITIONAL_OR_KEYWORD,
        Param ''args'' VAR_POSITIONAL, Param ''kwargs'' VAR_KEYWORD] (Some ''feat'') ! 0 = ''feat''"
    by simp
  from T have b: "normalize_signature [Param ''self'' POSITIONAL_OR_KEYWORD,
        Param ''args'' VAR_POSITIONAL, Param ''kwargs'' VAR_KEYWORD] (Some ''feat'') ! 2
      = ''**kwargs''"
    by simp
  from a b show ?thesis by simp
qed

section \<open>Replay never fails on a missing anchor of an insertion\<close>

lemma scan_in_ours: "scan names ours shift index = Some name \<Longrightarrow> name \<in> set ours"
proof (induction names ours shift index rule: scan.induct)
  case (1 names our_names shift index)
  show ?case
  proof (cases "shift \<noteq> 0 \<and> index > 0 \<and> index < int (length names) - 1")
    case False
    with "1.prems" show ?thesis by (simp add: scan.simps [of names our_names shift index])
  next
    case True
    show ?thesis
    proof (cases "names ! nat (index + shift) \<in> set our_names")
      case in_ours: True
      with True "1.prems" show ?thesis
        by (simp add: scan.simps [of names our_names shift index] Let_def)
    next
      case not_in: False
      with True "1.prems" have "scan names our_names shift (index + shift) = Some name"
        by (simp add: scan.simps [of names our_names shift index] Let_def)
      with "1.IH" [OF True refl refl not_in] show ?thesis by simp
    qed
  qed
qed

lemma map_of_od_set_same: "map_of (od_set k v xs) k = Some v"
  by (induction xs) auto

lemma map_of_od_set_other: "k' \<noteq> k \<Longrightarrow> map_of (od_set k v xs) k' = map_of xs k'"
  by (induction xs) auto

lemma slots_record_intent: "slots (record_intent self m f d) = slots self"
  by (simp add: record_intent_def split: option.splits custom.splits)

lemma old_ids_record_intent: "old_ids (record_intent self m f d) = old_ids self"
  by (simp add: record_intent_def split: option.splits custom.splits)

lemma ledger_record_intent:
  "d \<noteq> Replace \<Longrightarrow> \<exists>ms. map_of (customs (record_intent self m f d)) m = Some (Mods ms)"
  by (auto simp: record_intent_def map_of_od_set_same split: option.splits custom.splits)

lemma update_ledger_insertion:
  "insertion d \<Longrightarrow> map_of (customs self) m = Some (Mods ms) \<Longrightarrow>
     update_ledger self m c d i f =
       (None, self\<lparr> customs := od_set m (Mods (od_set i (f, d) ms)) (customs self) \<rparr>)"
  by (cases d) (simp_all add: update_ledger_def insertion_def)

lemma apply_directive_anchor_present:
  "insertion d \<Longrightarrow>
   (\<forall>a. d = InsertAfter a \<or> d = InsertBefore a \<longrightarrow> a \<in> set (c_names c)) \<Longrightarrow>
     fst (apply_directive c d i f) \<noteq> Some AnchorNotFound"
  by (cases d)
     (auto simp: apply_directive_def insertion_def prepend_def append_step_def add_after_def
        add_before_def check_duplicates_def index_of_None split: option.splits)

lemma install_no_anchor_error:
  assumes ins: "insertion d"
    and anc: "\<forall>a. d = InsertAfter a \<or> d = InsertBefore a \<longrightarrow>
                (\<exists>c. slots self m = Some (Composed c) \<and> a \<in> set (c_names c))"
    and led: "map_of (customs self) m = Some (Mods ms)"
  shows "fst (install H self m f d i sg ch False) \<noteq> Some AnchorNotFound"
proof (cases "slots self m")
  case None
  with ins show ?thesis by (auto simp: install_def insertion_def)
next
  case (Some current)
  define composer where "composer =
     (case current of Composed c \<Rightarrow> c
      | Plain old_func \<Rightarrow> new_composer H self old_func ch
           (case old_ids self m of None \<Rightarrow> ''old'' | Some i \<Rightarrow> i) sg)"
  have nr: "d \<noteq> Replace" using ins by (auto simp: insertion_def)
  have present: "\<forall>a. d = InsertAfter a \<or> d = InsertBefore a \<longrightarrow> a \<in> set (c_names composer)"
    using anc Some by (auto simp: composer_def)
  obtain e c' where ap: "apply_directive composer d i f = (e, c')"
    by (cases "apply_directive composer d i f")
  from apply_directive_anchor_present [OF ins present, of i f] ap
  have ne: "e \<noteq> Some AnchorNotFound" by simp
  show ?thesis
  proof (cases e)
    case None
    let ?self2 = "self\<lparr> slots := (slots self)(m := Some (Composed c')) \<rparr>"
    have "map_of (customs ?self2) m = Some (Mods ms)" using led by simp
    from update_ledger_insertion [OF ins this]
    have "fst (update_ledger ?self2 m c' d i f) = None" by simp
    with None ap Some nr show ?thesis
      by (simp add: install_def composer_def [symmetric] Let_def)
  next
    case (Some err)
    with ne ap \<open>slots self m = Some current\<close> nr show ?thesis
      by (simp add: install_def composer_def [symmetric] Let_def)
  qed
qed


lemma hook_simplifying_cases:
  assumes "hook_simplifying H"
  shows "(\<exists>e. analyse_function H self m f d = Inl e \<and> e \<noteq> AnchorNotFound) \<or>
         (\<exists>sg ch. analyse_function H self m f d = Inr (d, sg, ch)) \<or>
         (\<exists>sg ch. analyse_function H self m f d = Inr (Replace, sg, ch))"
proof -
  from assms have h: "case analyse_function H self m f d of
      Inl e \<Rightarrow> e \<noteq> AnchorNotFound | Inr r \<Rightarrow> fst r = d \<or> fst r = Replace"
    unfolding hook_simplifying_def by blast
  show ?thesis
  proof (cases "analyse_function H self m f d")
    case (Inl e)
    with h show ?thesis by simp
  next
    case (Inr r)
    obtain d' sg ch where r: "r = (d', sg, ch)" by (cases r)
    with Inr h show ?thesis by auto
  qed
qed

lemma modify_behavior_no_anchor_error:
  assumes hp: "hook_simplifying H"
    and kind: "d = Replace \<or> insertion d"
    and anc: "\<forall>a. d = InsertAfter a \<or> d = InsertBefore a \<longrightarrow>
                (\<exists>c. slots self m = Some (Composed c) \<and> a \<in> set (c_names c))"
  shows "fst (modify_behavior H self m f d i False) \<noteq> Some AnchorNotFound"
proof -
  let ?self1 = "record_intent self m f d"
  have nrm: "\<not> is_remove d"
    using kind by (cases d; simp add: is_remove_def insertion_def)+
  from hook_simplifying_cases [OF hp, of ?self1 m f d]
  consider e where "analyse_function H ?self1 m f d = Inl e" "e \<noteq> AnchorNotFound"
    | sg ch where "analyse_function H ?self1 m f d = Inr (Replace, sg, ch)"
    | sg ch where "analyse_function H ?self1 m f d = Inr (d, sg, ch)" "d \<noteq> Replace"
    by blast
  then show ?thesis
  proof cases
    case 1
    with nrm show ?thesis by (simp add: modify_behavior_def Let_def)
  next
    case 2
    with nrm show ?thesis by (simp add: modify_behavior_def Let_def install_def)
  next
    case 3
    with kind have ins: "insertion d" by simp
    from ledger_record_intent [OF 3(2), of self m f]
    obtain ms where led: "map_of (customs ?self1) m = Some (Mods ms)" by blast
    have anc': "\<forall>a. d = InsertAfter a \<or> d = InsertBefore a \<longrightarrow>
              (\<exists>c. slots ?self1 m = Some (Composed c) \<and> a \<in> set (c_names c))"
      using anc by (simp add: slots_record_intent)
    from install_no_anchor_error [OF ins anc' led, of H f i sg ch] 3 nrm
    show ?thesis by (simp add: modify_behavior_def Let_def)
  qed
qed

lemma copy_one_anchored:
  assumes hp: "hook_simplifying H"
    and d: "d = InsertAfter a \<or> d = InsertBefore a"
    and src: "\<forall>c. slots obj m = Some (Composed c) \<longrightarrow> k \<in> set (c_names c)"
    and meth: "slots self m = Some bound"
  shows "fst (copy_one H self obj m (k, f, d)) \<noteq> Some AnchorNotFound"
proof (cases bound)
  case (Plain g)
  have "fst (modify_behavior H self m f (if is_add_after d then Append else Prepend) k False)
          \<noteq> Some AnchorNotFound"
    by (rule modify_behavior_no_anchor_error [OF hp]) (simp_all add: insertion_def)
  with d meth Plain show ?thesis by (auto simp: copy_one_def)
next
  case (Composed ours)
  show ?thesis
  proof (cases "a \<in> set (c_names ours)")
    case True
    have "fst (modify_behavior H self m f d k False) \<noteq> Some AnchorNotFound"
      using d meth Composed True
      by (intro modify_behavior_no_anchor_error [OF hp]) (auto simp: insertion_def)
    with d meth Composed True show ?thesis by (auto simp: copy_one_def)
  next
    case False
    show ?thesis
    proof (cases "slots obj m")
      case None
      with d meth Composed False show ?thesis by (auto simp: copy_one_def)
    next
      case (Some theirs_slot)
      show ?thesis
      proof (cases theirs_slot)
        case (Plain g)
        with Some d meth Composed False show ?thesis by (auto simp: copy_one_def)
      next
        case theirs: (Composed theirs)
        with Some src have "k \<in> set (c_names theirs)" by simp
        then obtain index where ix: "index_of (c_names theirs) k = Some index"
          using index_of_None [of "c_names theirs" k] by (cases "index_of (c_names theirs) k") auto
        show ?thesis
        proof (cases "scan (c_names theirs) (c_names ours) (- 1) (int index)")
          case None
          have "fst (modify_behavior H self m f Prepend k False) \<noteq> Some AnchorNotFound"
            by (rule modify_behavior_no_anchor_error [OF hp]) (simp_all add: insertion_def)
          with None ix theirs Some d meth Composed False show ?thesis
            by (auto simp: copy_one_def)
        next
          case found: (Some name)
          from scan_in_ours [OF found] have inn: "name \<in> set (c_names ours)" .
          have "fst (modify_behavior H self m f (with_anchor d name) k False)
                  \<noteq> Some AnchorNotFound"
            using d meth Composed inn
            by (intro modify_behavior_no_anchor_error [OF hp])
               (auto simp: insertion_def with_anchor_def)
          with found ix theirs Some d meth Composed False show ?thesis
            by (auto simp: copy_one_def)
        qed
      qed
    qed
  qed
qed

lemma copy_one_no_anchor_error:
  assumes hp: "hook_simplifying H"
    and ins: "insertion d"
    and src: "anchored d \<longrightarrow> (\<forall>c. slots obj m = Some (Composed c) \<longrightarrow> k \<in> set (c_names c))"
  shows "fst (copy_one H self obj m (k, f, d)) \<noteq> Some AnchorNotFound"
proof (cases "slots self m")
  case None
  then show ?thesis by (simp add: copy_one_def)
next
  case (Some bound)
  have plain: "d = Prepend \<or> d = Append \<Longrightarrow> ?thesis"
  proof -
    assume pa: "d = Prepend \<or> d = Append"
    have "fst (modify_behavior H self m f d k False) \<noteq> Some AnchorNotFound"
      using pa by (intro modify_behavior_no_anchor_error [OF hp]) (auto simp: insertion_def)
    with pa Some show ?thesis by (auto simp: copy_one_def)
  qed
  show ?thesis
  proof (cases d)
    case (InsertBefore a)
    with src have "\<forall>c. slots obj m = Some (Composed c) \<longrightarrow> k \<in> set (c_names c)"
      by (simp add: anchored_def)
    from copy_one_anchored [OF hp _ this Some, of d a f] InsertBefore show ?thesis by simp
  next
    case (InsertAfter a)
    with src have "\<forall>c. slots obj m = Some (Composed c) \<longrightarrow> k \<in> set (c_names c)"
      by (simp add: anchored_def)
    from copy_one_anchored [OF hp _ this Some, of d a f] InsertAfter show ?thesis by simp
  qed (use ins plain in \<open>simp_all add: insertion_def\<close>)
qed

lemma copy_entries_no_anchor_error:
  assumes hp: "hook_simplifying H"
    and ok: "\<forall>(k, f, d) \<in> set entries. insertion d \<and>
               (anchored d \<longrightarrow> (\<forall>c. slots obj m = Some (Composed c) \<longrightarrow> k \<in> set (c_names c)))"
  shows "fst (copy_entries H self obj m entries) \<noteq> Some AnchorNotFound"
  using ok
proof (induction entries arbitrary: self)
  case Nil
  then show ?case by simp
next
  case (Cons entry entries)
  obtain k f d where e: "entry = (k, f, d)" by (cases entry)
  from Cons.prems e have ins: "insertion d"
    and src: "anchored d \<longrightarrow> (\<forall>c. slots obj m = Some (Composed c) \<longrightarrow> k \<in> set (c_names c))"
    by auto
  from copy_one_no_anchor_error [OF hp ins src, of self f]
  have one: "fst (copy_one H self obj m entry) \<noteq> Some AnchorNotFound" using e by simp
  obtain err self' where r: "copy_one H self obj m entry = (err, self')"
    by (cases "copy_one H self obj m entry")
  show ?case
  proof (cases err)
    case None
    from Cons.IH [of self'] Cons.prems have "fst (copy_entries H self' obj m entries) \<noteq> Some AnchorNotFound"
      by simp
    with None r show ?thesis by simp
  next
    case (Some x)
    with one r show ?thesis by simp
  qed
qed

lemma copy_methods_no_anchor_error:
  assumes hp: "hook_simplifying H"
    and ok: "\<forall>(m, modifiers) \<in> set cs. case modifiers of Whole func \<Rightarrow> True
       | Mods entries \<Rightarrow> (\<forall>(k, f, d) \<in> set entries. insertion d \<and>
               (anchored d \<longrightarrow> (\<forall>c. slots obj m = Some (Composed c) \<longrightarrow> k \<in> set (c_names c))))"
  shows "fst (copy_methods H self obj cs) \<noteq> Some AnchorNotFound"
  using ok
proof (induction cs arbitrary: self)
  case Nil
  then show ?case by simp
next
  case (Cons mc cs)
  obtain m modifiers where mc: "mc = (m, modifiers)" by (cases mc)
  define r where "r = (case modifiers of
              Whole func \<Rightarrow> modify_behavior H self m func Replace ''custom'' False
            | Mods entries \<Rightarrow> copy_entries H self obj m entries)"
  have one: "fst r \<noteq> Some AnchorNotFound"
  proof (cases modifiers)
    case (Whole func)
    have "fst (modify_behavior H self m func Replace ''custom'' False) \<noteq> Some AnchorNotFound"
      by (rule modify_behavior_no_anchor_error [OF hp]) simp_all
    with Whole show ?thesis by (simp add: r_def)
  next
    case (Mods entries)
    with Cons.prems mc have "\<forall>(k, f, d) \<in> set entries. insertion d \<and>
               (anchored d \<longrightarrow> (\<forall>c. slots obj m = Some (Composed c) \<longrightarrow> k \<in> set (c_names c)))"
      by simp
    from copy_entries_no_anchor_error [OF hp this] Mods show ?thesis by (simp add: r_def)
  qed
  obtain err self' where rr: "r = (err, self')" by (cases r)
  show ?case
  proof (cases err)
    case None
    from Cons.IH [of self'] Cons.prems
    have "fst (copy_methods H self' obj cs) \<noteq> Some AnchorNotFound" by simp
    with None rr mc show ?thesis by (simp add: r_def [symmetric])
  next
    case (Some x)
    with one rr mc show ?thesis by (simp add: r_def [symmetric])
  qed
qed

text \<open>
  Claim C2, amended. With a hook that raises only exceptions of its own and returns
  the specifiers as they are or simplified to a whole replacement, replaying a ledger whose
  recorded modifications are all insertions, and in which the identifier of every
  anchored insertion is still an identifier of the source's pipeline, never raises
  \<open>AnchorNotFound\<close>, whatever the target: an insertion whose anchor is missing in the
  target is re-anchored or turned into an insertion at an end of the pipeline.
\<close>

theorem replay_of_insertions_never_raises_anchor_not_found:
  "hook_simplifying H \<Longrightarrow> ledger_replayable obj \<Longrightarrow>
     fst (copy_custom_behaviors H self obj) \<noteq> Some AnchorNotFound"
  unfolding copy_custom_behaviors_def ledger_replayable_def
  by (rule copy_methods_no_anchor_error)


lemma hook_simplifying_accepting: "hook_simplifying accepting_hooks"
  by (simp add: hook_simplifying_def accepting_hooks_def)

theorem replay_of_insertions_never_raises_anchor_not_found_witness:
  "hook_simplifying (accepting_hooks :: nat hooks) \<and>
   ledger_replayable
     (feature_with [(''get'', Mods [(''w'', 9::nat, InsertAfter ''y'')])]
        (Composed (pipeline_of [''x'', ''y'', ''w'', ''z''] [1, 2, 9, 3]))) \<and>
   fst (copy_custom_behaviors accepting_hooks
      (feature_with [] (Composed (pipeline_of [''x'', ''z''] [1, 3::nat])))
      (feature_with [(''get'', Mods [(''w'', 9, InsertAfter ''y'')])]
         (Composed (pipeline_of [''x'', ''y'', ''w'', ''z''] [1, 2, 9, 3]))))
     \<noteq> Some AnchorNotFound \<and>
   observe (copy_custom_behaviors accepting_hooks
      (feature_with [] (Composed (pipeline_of [''x'', ''z''] [1, 3::nat])))
      (feature_with [(''get'', Mods [(''w'', 9, InsertAfter ''y'')])]
         (Composed (pipeline_of [''x'', ''y'', ''w'', ''z''] [1, 2, 9, 3]))))
     = (None, Some ([''x'', ''w'', ''z''], [1, 9, 3]), Some [(''w'', 9, InsertAfter ''x'')])"
proof -
  let ?src = "feature_with [(''get'', Mods [(''w'', 9::nat, InsertAfter ''y'')])]
        (Composed (pipeline_of [''x'', ''y'', ''w'', ''z''] [1, 2, 9, 3]))"
  let ?tgt = "feature_with [] (Composed (pipeline_of [''x'', ''z''] [1, 3::nat]))"
  have a: "hook_simplifying (accepting_hooks :: nat hooks)" by (rule hook_simplifying_accepting)
  have b: "ledger_replayable ?src"
    by (simp add: ledger_replayable_def feature_with_def pipeline_of_def insertion_def)
  from replay_of_insertions_never_raises_anchor_not_found [OF a b, of ?tgt]
  have c: "fst (copy_custom_behaviors accepting_hooks ?tgt ?src) \<noteq> Some AnchorNotFound" .
  have d: "observe (copy_custom_behaviors accepting_hooks ?tgt ?src)
     = (None, Some ([''x'', ''w'', ''z''], [1, 9, 3]), Some [(''w'', 9, InsertAfter ''x'')])"
    by code_simp
  from a b c d show ?thesis by simp
qed

text \<open>
  Claim C2, as stated, fails. A recorded \<open>Remove\<close> or \<open>ReplaceNamed\<close> is applied as it
  is and raises \<open>AnchorNotFound\<close> when its anchor is missing in the target. A recorded
  insertion raises it as well when its own identifier is no longer in the source's
  pipeline (here after an internal removal) and its anchor is missing in the target:
  the search starts with \<^verbatim>\<open>names.index(custom)\<close>.
\<close>

theorem replay_raises_anchor_not_found_counterexample:
  "observe (copy_custom_behaviors accepting_hooks
      (feature_with [] (Composed (pipeline_of [''x''] [1::nat])))
      (feature_with [(''get'', Mods [(''w'', 9, Remove ''y'')])]
         (Composed (pipeline_of [''x''] [1]))))
     = (Some AnchorNotFound, Some ([''x''], [1]), Some []) \<and>
   observe (copy_custom_behaviors accepting_hooks
      (feature_with [] (Composed (pipeline_of [''x''] [1::nat])))
      (feature_with [(''get'', Mods [(''w'', 9, ReplaceNamed ''y'')])]
         (Composed (pipeline_of [''x''] [1]))))
     = (Some AnchorNotFound, Some ([''x''], [1]), Some []) \<and>
   observe (modify_behavior accepting_hooks
      (snd (modify_behavior accepting_hooks
         (feature_with [] (Composed (pipeline_of [''old''] [0::nat])))
         ''get'' 5 (InsertAfter ''old'') ''w'' False))
      ''get'' 5 (Remove ''w'') ''w'' True)
     = (None, Some ([''old''], [0]), Some [(''w'', 5, InsertAfter ''old'')]) \<and>
   observe (copy_custom_behaviors accepting_hooks
      (feature_with [] (Composed (pipeline_of [''base''] [1::nat])))
      (snd (modify_behavior accepting_hooks
         (snd (modify_behavior accepting_hooks
            (feature_with [] (Composed (pipeline_of [''old''] [0::nat])))
            ''get'' 5 (InsertAfter ''old'') ''w'' False))
         ''get'' 5 (Remove ''w'') ''w'' True)))
     = (Some AnchorNotFound, Some ([''base''], [1]), None)"
  by code_simp

section \<open>Replay of a sequence of insertions and replacements\<close>





























lemma od_set_present_keys: "map_of xs k = Some w \<Longrightarrow> map fst (od_set k v xs) = map fst xs"
  by (induction xs) (auto split: if_splits)



























section \<open>The ledger after a removal and after a replacement\<close>

lemma ledger_at_Some: "ledger_at self m = Some ms \<longleftrightarrow> map_of (customs self) m = Some (Mods ms)"
  by (auto simp: ledger_at_def split: option.splits custom.splits)

lemma record_intent_ledger_present:
  "d \<noteq> Replace \<Longrightarrow> map_of (customs self) m = Some (Mods ms) \<Longrightarrow> record_intent self m f d = self"
  by (simp add: record_intent_def)

lemma install_success_ledger:
  assumes nr: "d \<noteq> Replace"
    and ok: "install H self m f d i sg ch False = (None, self')"
  shows "\<exists>c'. fst (update_ledger (self\<lparr> slots := (slots self)(m := Some (Composed c')) \<rparr>) m c' d i f) = None \<and>
              self' = snd (update_ledger (self\<lparr> slots := (slots self)(m := Some (Composed c')) \<rparr>) m c' d i f)"
proof (cases "slots self m")
  case None
  with nr ok show ?thesis by (simp add: install_def)
next
  case (Some current)
  define composer where "composer =
     (case current of Composed c \<Rightarrow> c
      | Plain old_func \<Rightarrow> new_composer H self old_func ch
           (case old_ids self m of None \<Rightarrow> ''old'' | Some i \<Rightarrow> i) sg)"
  obtain e c' where ap: "apply_directive composer d i f = (e, c')"
    by (cases "apply_directive composer d i f")
  show ?thesis
  proof (cases e)
    case None
    with ap Some nr ok
    have "update_ledger (self\<lparr> slots := (slots self)(m := Some (Composed c')) \<rparr>) m c' d i f
            = (None, self')"
      by (simp add: install_def composer_def [symmetric] Let_def)
    then show ?thesis by (intro exI [of _ c']) simp
  next
    case (Some err)
    with ap \<open>slots self m = Some current\<close> nr ok show ?thesis
      by (simp add: install_def composer_def [symmetric] Let_def)
  qed
qed

text \<open>
  A non-internal \<open>Remove a\<close> passed the identifier \<open>i\<close> that raises nothing has
  found an entry under \<open>i\<close> and has deleted it; \<open>a\<close> does not occur in what it
  does to the dictionary.
\<close>

lemma remove_bookkeeping:
  assumes ok: "modify_behavior H self m f (Remove a) i False = (None, self')"
    and led: "ledger_at self m = Some ms"
  shows "i \<in> fst ` set ms \<and> ledger_at self' m = Some (od_del i ms) \<and>
         map_of (od_del i ms) i = None"
proof -
  from led have mo: "map_of (customs self) m = Some (Mods ms)" by (simp add: ledger_at_Some)
  have ri: "record_intent self m f (Remove a) = self"
    by (rule record_intent_ledger_present [OF _ mo]) simp
  from ok ri have "install H self m f (Remove a) i None None False = (None, self')"
    by (simp add: modify_behavior_def Let_def is_remove_def)
  from install_success_ledger [OF _ this]
  obtain c' where u: "fst (update_ledger (self\<lparr> slots := (slots self)(m := Some (Composed c')) \<rparr>)
        m c' (Remove a) i f) = None"
    and s: "self' = snd (update_ledger (self\<lparr> slots := (slots self)(m := Some (Composed c')) \<rparr>)
        m c' (Remove a) i f)"
    by auto
  from u mo have inn: "i \<in> fst ` set ms"
    by (simp add: update_ledger_def split: if_splits)
  with s mo have "customs self' = od_set m (Mods (od_del i ms)) (customs self)"
    by (simp add: update_ledger_def)
  then have "ledger_at self' m = Some (od_del i ms)"
    by (simp add: ledger_at_Some map_of_od_set_same)
  moreover have "map_of (od_del i ms) i = None"
    by (simp add: od_del_def map_of_eq_None_iff image_iff)
  ultimately show ?thesis using inn by simp
qed

text \<open>
  A non-internal \<open>ReplaceNamed a\<close> that raises nothing, where \<open>a\<close> was recorded,
  leaves the entry of \<open>a\<close> with the new function and the specifiers recorded before,
  at the same position.
\<close>

lemma replace_bookkeeping:
  assumes an: "analyse_function H self m f (ReplaceNamed a) = Inr (ReplaceNamed a, sg, ch)"
    and ok: "modify_behavior H self m f (ReplaceNamed a) i False = (None, self')"
    and led: "ledger_at self m = Some ms"
    and old: "map_of ms a = Some (g, d0)"
  shows "ledger_at self' m = Some (od_set a (f, d0) ms) \<and>
         map_of (od_set a (f, d0) ms) a = Some (f, d0) \<and>
         map fst (od_set a (f, d0) ms) = map fst ms"
proof -
  from led have mo: "map_of (customs self) m = Some (Mods ms)" by (simp add: ledger_at_Some)
  have ri: "record_intent self m f (ReplaceNamed a) = self"
    by (rule record_intent_ledger_present [OF _ mo]) simp
  from ok ri an have "install H self m f (ReplaceNamed a) i sg ch False = (None, self')"
    by (simp add: modify_behavior_def Let_def is_remove_def)
  from install_success_ledger [OF _ this]
  obtain c' where s: "self' = snd (update_ledger (self\<lparr> slots := (slots self)(m := Some (Composed c')) \<rparr>)
        m c' (ReplaceNamed a) i f)"
    by auto
  with mo old have "customs self' = od_set m (Mods (od_set a (f, d0) ms)) (customs self)"
    by (simp add: update_ledger_def)
  then have "ledger_at self' m = Some (od_set a (f, d0) ms)"
    by (simp add: ledger_at_Some map_of_od_set_same)
  with od_set_present_keys [OF old] show ?thesis by (simp add: map_of_od_set_same)
qed

text \<open>
  Claim C9. A non-internal \<open>ReplaceNamed a\<close> updates the entry recorded for the step
  replaced (the key is \<^verbatim>\<open>specifiers[1]\<close>), but a non-internal \<open>Remove a\<close> deletes the
  entry recorded under the identifier passed to the call (\<^verbatim>\<open>del customs[modif_id]\<close>),
  not the entry of the step removed. With \<open>a\<close> and \<open>custom\<close> recorded, removing
  \<open>a\<close> under the default identifier \<open>custom\<close> leaves the pipeline \<open>old, custom\<close>
  and the record of \<open>a\<close> alone, from which a replay builds \<open>old, a\<close>; with only
  \<open>a\<close> recorded the call raises \<open>KeyError\<close> after the step has been removed from
  the pipeline. Replacing \<open>a\<close> under the identifier \<open>custom\<close> updates the record
  of \<open>a\<close>, and removing \<open>a\<close> under its own identifier deletes that record, from
  which a replay builds \<open>old, custom\<close>.
\<close>

theorem remove_deletes_entry_of_call_identifier:
  "observe (modify_all accepting_hooks
      (feature_with [] (Composed (pipeline_of [''old''] [0::nat]))) ''get''
      [(5, Append, ''a''), (6, Append, ''custom''), (7, Remove ''a'', ''custom'')])
     = (None, Some ([''old'', ''custom''], [0, 6]), Some [(''a'', 5, Append)]) \<and>
   observe (copy_custom_behaviors accepting_hooks
      (feature_with [] (Composed (pipeline_of [''old''] [0::nat])))
      (snd (modify_all accepting_hooks
         (feature_with [] (Composed (pipeline_of [''old''] [0::nat]))) ''get''
         [(5, Append, ''a''), (6, Append, ''custom''), (7, Remove ''a'', ''custom'')])))
     = (None, Some ([''old'', ''a''], [0, 5]), Some [(''a'', 5, Append)]) \<and>
   observe (modify_all accepting_hooks
      (feature_with [] (Composed (pipeline_of [''old''] [0::nat]))) ''get''
      [(5, Append, ''a''), (7, Remove ''a'', ''custom'')])
     = (Some KeyError, Some ([''old''], [0]), Some [(''a'', 5, Append)]) \<and>
   observe (modify_all accepting_hooks
      (feature_with [] (Composed (pipeline_of [''old''] [0::nat]))) ''get''
      [(5, Append, ''a''), (6, Append, ''custom''), (7, ReplaceNamed ''a'', ''custom'')])
     = (None, Some ([''old'', ''a'', ''custom''], [0, 7, 6]),
        Some [(''a'', 7, Append), (''custom'', 6, Append)]) \<and>
   observe (modify_all accepting_hooks
      (feature_with [] (Composed (pipeline_of [''old''] [0::nat]))) ''get''
      [(5, Append, ''a''), (6, Append, ''custom''), (7, Remove ''a'', ''a'')])
     = (None, Some ([''old'', ''custom''], [0, 6]), Some [(''custom'', 6, Append)]) \<and>
   observe (copy_custom_behaviors accepting_hooks
      (feature_with [] (Composed (pipeline_of [''old''] [0::nat])))
      (snd (modify_all accepting_hooks
         (feature_with [] (Composed (pipeline_of [''old''] [0::nat]))) ''get''
         [(5, Append, ''a''), (6, Append, ''custom''), (7, Remove ''a'', ''a'')])))
     = (None, Some ([''old'', ''custom''], [0, 6]), Some [(''custom'', 6, Append)])"
  by code_simp

end
